theory Spec2Isabelle
  imports Complex_Main "HOL-Library.Monad_Syntax" "HOL-Library.Multiset"
begin

section \<open>Arrays of C ints with checked indexing\<close>

text \<open>
  The program works on C arrays of \<open>int\<close>. An array of length \<open>n\<close> is a list of \<open>n\<close>
  integers; an index is a C \<open>int\<close>, so it may be negative or too large. An access whose
  index lies outside \<open>[0, length)\<close> is undefined behaviour in C: the model returns \<open>None\<close>
  there and every later step is abandoned. All values that occur (labels, indices, tour
  costs of the instances considered) are far below \<open>INT_MAX\<close>, so integers are
  unbounded \<open>int\<close> and no wrap-around is modelled.
\<close>

definition rd :: "'a list \<Rightarrow> int \<Rightarrow> 'a option" where
  "rd a i = (if 0 \<le> i \<and> i < int (length a) then Some (a ! nat i) else None)"

definition wr :: "'a list \<Rightarrow> int \<Rightarrow> 'a \<Rightarrow> 'a list option" where
  "wr a i v = (if 0 \<le> i \<and> i < int (length a) then Some (a[nat i := v]) else None)"

text \<open>\<open>a[i][j]\<close> for a two-dimensional array \<open>int a[][n]\<close>: a list of rows.\<close>

definition rd2 :: "int list list \<Rightarrow> int \<Rightarrow> int \<Rightarrow> int option" where
  "rd2 a i j = do { row \<leftarrow> rd a i; rd row j }"

definition wr2 :: "int list list \<Rightarrow> int \<Rightarrow> int \<Rightarrow> int \<Rightarrow> int list list option" where
  "wr2 a i j v = do { row \<leftarrow> rd a i; row' \<leftarrow> wr row j v; wr a i row' }"

text \<open>
  \<open>for (i = lo; i < hi; i++) body\<close>, for a body that changes neither \<open>i\<close> nor \<open>hi\<close>.
\<close>

function for_loop :: "int \<Rightarrow> int \<Rightarrow> (int \<Rightarrow> 's \<Rightarrow> 's option) \<Rightarrow> 's \<Rightarrow> 's option" where
  "for_loop i hi body s =
     (if i < hi then (case body i s of None \<Rightarrow> None | Some s' \<Rightarrow> for_loop (i + 1) hi body s')
      else Some s)"
  by pat_completeness auto
termination
  by (relation "measure (\<lambda>(i, hi, body, s). nat (hi - i))") auto

declare for_loop.simps [simp del]

definition POPULATION :: int where
  "POPULATION = 20"

section \<open>The chromosome codec\<close>

text \<open>
  \<open>copy_array(a, n, j)\<close>: the outer loop looks for \<open>i == j - 1\<close>; there it shifts the
  tail of \<open>a\<close> one place down with an inner loop that reuses the counter \<open>i\<close>, and
  stores \<open>0\<close> in the last cell. \<open>shift_loop\<close> is the inner loop; it returns the array
  and the value the counter is left with, from which the outer loop goes on
  (\<open>copy_array_from a n j i\<close> is the outer loop at the counter value \<open>i\<close>).
\<close>

function shift_loop :: "int list \<Rightarrow> int \<Rightarrow> int \<Rightarrow> (int list \<times> int) option" where
  "shift_loop a n i =
     (if i < n - 1 then
        (case rd a (i + 1) of None \<Rightarrow> None
         | Some x \<Rightarrow> (case wr a i x of None \<Rightarrow> None
         | Some a' \<Rightarrow> shift_loop a' n (i + 1)))
      else Some (a, i))"
  by pat_completeness auto
termination
  by (relation "measure (\<lambda>(a, n, i). nat (n - i))") auto

declare shift_loop.simps [simp del]

lemma shift_loop_counter:
  "shift_loop a n i = Some (a', i') \<Longrightarrow> n - 1 \<le> i' \<and> i \<le> i'"
proof (induction a n i rule: shift_loop.induct)
  case (1 a n i)
  show ?case
  proof (cases "i < n - 1")
    case True
    from "1.prems" True obtain x a1 where
      x: "rd a (i + 1) = Some x" and a1: "wr a i x = Some a1"
      and rec: "shift_loop a1 n (i + 1) = Some (a', i')"
      by (subst (asm) shift_loop.simps) (auto split: option.splits)
    from "1.IH"[OF True x a1 rec] show ?thesis by simp
  next
    case False
    with "1.prems" show ?thesis
      by (subst (asm) shift_loop.simps) simp
  qed
qed

function copy_array_from :: "int list \<Rightarrow> int \<Rightarrow> int \<Rightarrow> int \<Rightarrow> int list option" where
  "copy_array_from a n j i =
     (if i < n then
        (if i = j - 1 then
           (case rd a (i + 1) of None \<Rightarrow> None
            | Some x \<Rightarrow> (case wr a i x of None \<Rightarrow> None
            | Some a1 \<Rightarrow> (case shift_loop a1 n j of None \<Rightarrow> None
            | Some (a2, i2) \<Rightarrow> (case wr a2 (n - 1) 0 of None \<Rightarrow> None
            | Some a3 \<Rightarrow> copy_array_from a3 n j (i2 + 1)))))
         else copy_array_from a n j (i + 1))
      else Some a)"
  by pat_completeness auto
termination
proof (relation "measure (\<lambda>(a, n, j, i). nat (n - i))", goal_cases)
  case 1
  show ?case by simp
next
  case (2 a n j i x a1 p a2 i2 a3)
  then have "n - 1 \<le> i2" using shift_loop_counter by metis
  with 2 show ?case by simp
next
  case 3
  then show ?case by simp
qed

declare copy_array_from.simps [simp del]

definition copy_array :: "int list \<Rightarrow> int \<Rightarrow> int \<Rightarrow> int list option" where
  "copy_array a n j = copy_array_from a n j 0"

text \<open>
  \<open>order_representation(n, a, route)\<close> decodes every row of the population \<open>a\<close> into
  the same row of \<open>route\<close>. The working list \<open>order_list\<close> is one local array that is
  refilled with \<open>1..n\<close> for each row; its cells are all written before they are read, so
  the model starts it filled with zeros. \<open>fill_order_list\<close> is the first loop over \<open>j\<close>,
  \<open>decode_gene\<close> the body of the second one (\<open>k = a[i][j]\<close>, \<open>route[i][j] = order_list[k - 1]\<close>,
  \<open>copy_array(order_list, n, k)\<close>) and \<open>decode_row\<close> the body of the loop over \<open>i\<close>.
\<close>

definition fill_order_list :: "int \<Rightarrow> int list \<Rightarrow> int list option" where
  "fill_order_list n order_list = for_loop 0 n (\<lambda>j ol. wr ol j (j + 1)) order_list"

definition decode_gene ::
  "int \<Rightarrow> int list list \<Rightarrow> int \<Rightarrow> int \<Rightarrow> int list list \<times> int list \<Rightarrow> (int list list \<times> int list) option" where
  "decode_gene n a i j = (\<lambda>(route, order_list). do {
     k \<leftarrow> rd2 a i j;
     x \<leftarrow> rd order_list (k - 1);
     route' \<leftarrow> wr2 route i j x;
     order_list' \<leftarrow> copy_array order_list n k;
     Some (route', order_list')
   })"

definition decode_row ::
  "int \<Rightarrow> int list list \<Rightarrow> int \<Rightarrow> int list list \<times> int list \<Rightarrow> (int list list \<times> int list) option" where
  "decode_row n a i = (\<lambda>(route, order_list). do {
     order_list' \<leftarrow> fill_order_list n order_list;
     for_loop 0 n (decode_gene n a i) (route, order_list')
   })"

definition order_representation :: "int \<Rightarrow> int list list \<Rightarrow> int list list \<Rightarrow> int list list option" where
  "order_representation n a route = do {
     (route', order_list) \<leftarrow> for_loop 0 POPULATION (decode_row n a) (route, replicate (nat n) 0);
     Some route'
   }"

section \<open>The codec when the cell behind the working list can be read\<close>

text \<open>
  The checked model above stops at the read \<open>a[i + 1]\<close> of \<open>copy_array\<close> when \<open>i + 1\<close> is
  the length of the array. A compiled program without bounds checks does not stop
  there: the read delivers the \<open>int\<close> that lies behind the array in memory. The
  definitions of this section are those of the codec once more, with the one change
  that a read of the working list at the index just past its end returns that
  \<open>int\<close>, the parameter \<open>v\<close>; every other access outside an array still gives \<open>None\<close>.
\<close>

definition rd_past :: "int \<Rightarrow> int list \<Rightarrow> int \<Rightarrow> int option" where
  "rd_past v a i = (if i = int (length a) then Some v else rd a i)"

function shift_loop_past :: "int \<Rightarrow> int list \<Rightarrow> int \<Rightarrow> int \<Rightarrow> (int list \<times> int) option" where
  "shift_loop_past v a n i =
     (if i < n - 1 then
        (case rd_past v a (i + 1) of None \<Rightarrow> None
         | Some x \<Rightarrow> (case wr a i x of None \<Rightarrow> None
         | Some a' \<Rightarrow> shift_loop_past v a' n (i + 1)))
      else Some (a, i))"
  by pat_completeness auto
termination
  by (relation "measure (\<lambda>(v, a, n, i). nat (n - i))") auto

declare shift_loop_past.simps [simp del]

lemma shift_loop_past_counter:
  "shift_loop_past v a n i = Some (a', i') \<Longrightarrow> n - 1 \<le> i' \<and> i \<le> i'"
proof (induction v a n i rule: shift_loop_past.induct)
  case (1 v a n i)
  show ?case
  proof (cases "i < n - 1")
    case True
    from "1.prems" True obtain x a1 where
      x: "rd_past v a (i + 1) = Some x" and a1: "wr a i x = Some a1"
      and rec: "shift_loop_past v a1 n (i + 1) = Some (a', i')"
      by (subst (asm) shift_loop_past.simps) (auto split: option.splits)
    from "1.IH"[OF True x a1 rec] show ?thesis by simp
  next
    case False
    with "1.prems" show ?thesis
      by (subst (asm) shift_loop_past.simps) simp
  qed
qed

function copy_array_from_past :: "int \<Rightarrow> int list \<Rightarrow> int \<Rightarrow> int \<Rightarrow> int \<Rightarrow> int list option" where
  "copy_array_from_past v a n j i =
     (if i < n then
        (if i = j - 1 then
           (case rd_past v a (i + 1) of None \<Rightarrow> None
            | Some x \<Rightarrow> (case wr a i x of None \<Rightarrow> None
            | Some a1 \<Rightarrow> (case shift_loop_past v a1 n j of None \<Rightarrow> None
            | Some (a2, i2) \<Rightarrow> (case wr a2 (n - 1) 0 of None \<Rightarrow> None
            | Some a3 \<Rightarrow> copy_array_from_past v a3 n j (i2 + 1)))))
         else copy_array_from_past v a n j (i + 1))
      else Some a)"
  by pat_completeness auto
termination
proof (relation "measure (\<lambda>(v, a, n, j, i). nat (n - i))", goal_cases)
  case 1
  show ?case by simp
next
  case (2 v a n j i x a1 p a2 i2 a3)
  then have "n - 1 \<le> i2" using shift_loop_past_counter by metis
  with 2 show ?case by simp
next
  case 3
  then show ?case by simp
qed

declare copy_array_from_past.simps [simp del]

definition copy_array_past :: "int \<Rightarrow> int list \<Rightarrow> int \<Rightarrow> int \<Rightarrow> int list option" where
  "copy_array_past v a n j = copy_array_from_past v a n j 0"

definition decode_gene_past ::
  "int \<Rightarrow> int \<Rightarrow> int list list \<Rightarrow> int \<Rightarrow> int \<Rightarrow> int list list \<times> int list \<Rightarrow> (int list list \<times> int list) option" where
  "decode_gene_past v n a i j = (\<lambda>(route, order_list). do {
     k \<leftarrow> rd2 a i j;
     x \<leftarrow> rd_past v order_list (k - 1);
     route' \<leftarrow> wr2 route i j x;
     order_list' \<leftarrow> copy_array_past v order_list n k;
     Some (route', order_list')
   })"

definition decode_row_past ::
  "int \<Rightarrow> int \<Rightarrow> int list list \<Rightarrow> int \<Rightarrow> int list list \<times> int list \<Rightarrow> (int list list \<times> int list) option" where
  "decode_row_past v n a i = (\<lambda>(route, order_list). do {
     order_list' \<leftarrow> fill_order_list n order_list;
     for_loop 0 n (decode_gene_past v n a i) (route, order_list')
   })"

definition order_representation_past ::
  "int \<Rightarrow> int \<Rightarrow> int list list \<Rightarrow> int list list \<Rightarrow> int list list option" where
  "order_representation_past v n a route = do {
     (route', order_list) \<leftarrow>
       for_loop 0 POPULATION (decode_row_past v n a) (route, replicate (nat n) 0);
     Some route'
   }"


section \<open>The genetic operators\<close>

text \<open>C's \<open>/\<close> and \<open>%\<close> on \<open>int\<close> truncate towards zero.\<close>

definition c_div :: "int \<Rightarrow> int \<Rightarrow> int" where
  "c_div a b = sgn a * sgn b * (\<bar>a\<bar> div \<bar>b\<bar>)"

definition c_mod :: "int \<Rightarrow> int \<Rightarrow> int" where
  "c_mod a b = a - b * c_div a b"

text \<open>
  \<open>min(a)\<close>: the least of the \<open>POPULATION\<close> entries of \<open>a\<close>, starting from the last one.
\<close>

definition min_arr :: "int list \<Rightarrow> int option" where
  "min_arr a = do {
     m \<leftarrow> rd a (POPULATION - 1);
     for_loop 0 POPULATION (\<lambda>i m. do { x \<leftarrow> rd a i; Some (if m > x then x else m) }) m
   }"

text \<open>
  \<open>ranking_selection(a, n, b, c)\<close>: \<open>a\<close> is the fitness vector, \<open>b\<close> the population, \<open>c\<close>
  the output population. The fitness is copied into the local array \<open>d\<close>; each round
  takes the least entry of \<open>d\<close>, lets \<open>idx\<close> run over all positions holding it (so the
  last one stays), copies row \<open>idx\<close> of \<open>b\<close> to row \<open>i\<close> of \<open>c\<close> and overwrites \<open>d[idx]\<close>
  with \<open>1000000\<close>. The locals \<open>d\<close> and \<open>idx\<close> are not initialised in the source; \<open>d\<close> is
  filled before it is read, and \<open>idx\<close> starts here as \<open>-1\<close>, an index no array has.
  \<open>last_index_of\<close> is the loop that sets \<open>idx\<close>, \<open>copy_row\<close> the loop that copies the row,
  \<open>select_round\<close> the body of the loop over \<open>i\<close>.
\<close>

definition last_index_of :: "int list \<Rightarrow> int \<Rightarrow> int \<Rightarrow> int option" where
  "last_index_of d m idx =
     for_loop 0 POPULATION (\<lambda>j idx. do { x \<leftarrow> rd d j; Some (if x = m then j else idx) }) idx"

definition copy_row :: "int \<Rightarrow> int list list \<Rightarrow> int \<Rightarrow> int \<Rightarrow> int list list \<Rightarrow> int list list option" where
  "copy_row n b idx i c = for_loop 0 n (\<lambda>j c. do { x \<leftarrow> rd2 b idx j; wr2 c i j x }) c"

definition select_round ::
  "int \<Rightarrow> int list list \<Rightarrow> int \<Rightarrow> int list list \<times> int list \<times> int \<Rightarrow> (int list list \<times> int list \<times> int) option" where
  "select_round n b i = (\<lambda>(c, d, idx). do {
     m \<leftarrow> min_arr d;
     idx' \<leftarrow> last_index_of d m idx;
     c' \<leftarrow> copy_row n b idx' i c;
     d' \<leftarrow> wr d idx' 1000000;
     Some (c', d', idx')
   })"

definition ranking_selection ::
  "int list \<Rightarrow> int \<Rightarrow> int list list \<Rightarrow> int list list \<Rightarrow> int list list option" where
  "ranking_selection a n b c = do {
     d \<leftarrow> for_loop 0 POPULATION (\<lambda>i d. do { x \<leftarrow> rd a i; wr d i x }) (replicate (nat POPULATION) 0);
     (c', d', idx) \<leftarrow> for_loop 0 POPULATION (select_round n b) (c, d, - 1);
     Some c'
   }"

text \<open>
  \<open>tow_point_crossover(n, a, b)\<close>: the children are written to \<open>a\<close>, the parents are read
  from \<open>b\<close> (two different arrays at the only call). The loop over the pairs steps by two
  (\<open>for_loop2\<close>). \<open>keep_gene\<close> is the body of the first and of the third loop over \<open>j\<close>
  (each child takes the gene of its own parent), \<open>swap_gene\<close> the body of the second one
  (each child takes the gene of the other parent), \<open>cross_pair\<close> the body of the loop
  over \<open>i\<close>, and \<open>crossover_point\<close> the value of \<open>point\<close>.
\<close>

function for_loop2 :: "int \<Rightarrow> int \<Rightarrow> (int \<Rightarrow> 's \<Rightarrow> 's option) \<Rightarrow> 's \<Rightarrow> 's option" where
  "for_loop2 i hi body s =
     (if i < hi then (case body i s of None \<Rightarrow> None | Some s' \<Rightarrow> for_loop2 (i + 2) hi body s')
      else Some s)"
  by pat_completeness auto
termination
  by (relation "measure (\<lambda>(i, hi, body, s). nat (hi - i))") auto

declare for_loop2.simps [simp del]

definition crossover_point :: "int \<Rightarrow> int" where
  "crossover_point n = (if c_mod n 2 = 0 then c_div n 2 - 1 else c_div (n + 1) 2 - 1)"

definition keep_gene :: "int list list \<Rightarrow> int \<Rightarrow> int \<Rightarrow> int list list \<Rightarrow> int list list option" where
  "keep_gene b i j a = do {
     x \<leftarrow> rd2 b i j;
     a1 \<leftarrow> wr2 a i j x;
     y \<leftarrow> rd2 b (i + 1) j;
     wr2 a1 (i + 1) j y
   }"

definition swap_gene :: "int list list \<Rightarrow> int \<Rightarrow> int \<Rightarrow> int list list \<Rightarrow> int list list option" where
  "swap_gene b i j a = do {
     x \<leftarrow> rd2 b (i + 1) j;
     a1 \<leftarrow> wr2 a i j x;
     y \<leftarrow> rd2 b i j;
     wr2 a1 (i + 1) j y
   }"

definition cross_pair :: "int \<Rightarrow> int list list \<Rightarrow> int \<Rightarrow> int list list \<Rightarrow> int list list option" where
  "cross_pair n b i a = (let point = crossover_point n in do {
     a1 \<leftarrow> for_loop 0 (c_div point 2 + 1) (keep_gene b i) a;
     a2 \<leftarrow> for_loop (c_div point 2 + 1) (point + c_div point 2 + 1) (swap_gene b i) a1;
     for_loop (point + c_div point 2 + 1) n (keep_gene b i) a2
   })"

definition tow_point_crossover :: "int \<Rightarrow> int list list \<Rightarrow> int list list \<Rightarrow> int list list option" where
  "tow_point_crossover n a b = for_loop2 0 POPULATION (cross_pair n b) a"

text \<open>
  \<open>mutation(n, a)\<close> draws the individual \<open>r = rand() % (POPULATION - 1) + 1\<close>; the model
  takes the value \<open>rv\<close> that \<open>rand()\<close> returned. \<open>mutation_point\<close> is the value of \<open>point\<close>,
  \<open>set_ones r lo hi\<close> the loop that stores 1 in the genes \<open>[lo, hi)\<close> of row \<open>r\<close>.
\<close>

definition mutation_point :: "int \<Rightarrow> int" where
  "mutation_point n = (if c_mod n 2 = 0 then c_div n 2 else c_div (n + 1) 2)"

definition set_ones :: "int \<Rightarrow> int \<Rightarrow> int \<Rightarrow> int list list \<Rightarrow> int list list option" where
  "set_ones r lo hi a = for_loop lo hi (\<lambda>i a. wr2 a r i 1) a"

definition mutation :: "int \<Rightarrow> int list list \<Rightarrow> int \<Rightarrow> int list list option" where
  "mutation n a rv = (let r = c_mod rv (POPULATION - 1) + 1; point = mutation_point n in
     if r > c_div POPULATION 2 then do {
       a1 \<leftarrow> set_ones r 0 point a;
       wr2 a1 r point 2
     } else do {
       a1 \<leftarrow> set_ones r point (n - 10) a;
       wr2 a1 r (point + 10) 2
     })"

text \<open>\<open>rand_crossover(n, a)\<close>: row \<open>p = 3\<close> is copied over row \<open>POPULATION - p\<close>.\<close>

definition rand_crossover :: "int \<Rightarrow> int list list \<Rightarrow> int list list option" where
  "rand_crossover n a = (let p = 3 in
     for_loop 0 n (\<lambda>i a. do { x \<leftarrow> rd2 a p i; wr2 a (POPULATION - p) i x }) a)"

text \<open>
  The range invariant of a chromosome of length \<open>n\<close>: the gene at position \<open>j\<close> lies in
  \<open>[1, n - j]\<close>. \<open>genes_in_range n j gs\<close> checks the genes \<open>gs\<close> that start at position \<open>j\<close>.
\<close>

fun genes_in_range :: "int \<Rightarrow> int \<Rightarrow> int list \<Rightarrow> bool" where
  "genes_in_range n j [] = True"
| "genes_in_range n j (g # gs) = (1 \<le> g \<and> g \<le> n - j \<and> genes_in_range n (j + 1) gs)"

definition chromosome_ok :: "int \<Rightarrow> int list \<Rightarrow> bool" where
  "chromosome_ok n c = (int (length c) = n \<and> genes_in_range n 0 c)"

text \<open>A population array \<open>int a[POPULATION][n]\<close>: \<open>POPULATION\<close> rows of \<open>n\<close> cells.\<close>

definition well_shaped :: "int \<Rightarrow> int list list \<Rightarrow> bool" where
  "well_shaped n a = (int (length a) = POPULATION \<and> list_all (\<lambda>row. int (length row) = n) a)"


section \<open>Tour cost, feasibility and the search loop\<close>

text \<open>
  The parts of \<open>TSPdata\<close>, \<open>Param\<close> and \<open>Vdata\<close> that the search reads. The macro
  \<open>dist(k,l)\<close> computes the rounded Euclidean distance in floating point from the
  coordinate arrays \<open>x\<close> and \<open>y\<close>, which have \<open>n\<close> entries; the model takes the resulting
  integer as the function \<open>t_dist\<close> and keeps the bounds of the coordinate arrays.
\<close>

record TSPdata =
  t_n :: int
  t_min_node_num :: int
  t_dist :: "int \<Rightarrow> int \<Rightarrow> int"

definition dist_macro :: "TSPdata \<Rightarrow> int \<Rightarrow> int \<Rightarrow> int option" where
  "dist_macro t k l =
     (if 0 \<le> k \<and> k < t_n t \<and> 0 \<le> l \<and> l < t_n t then Some (t_dist t k l) else None)"

text \<open>
  \<open>compute_cost(tspdata, tour)\<close>: the loop leaves early at the first negative entry;
  \<open>cost_loop\<close> returns the counter \<open>k\<close> it stopped at together with the cost so far.
\<close>

function cost_loop :: "TSPdata \<Rightarrow> int list \<Rightarrow> int \<Rightarrow> int \<Rightarrow> (int \<times> int) option" where
  "cost_loop t tour k cost =
     (if k < t_n t - 1 then
        (case rd tour (k + 1) of None \<Rightarrow> None
         | Some nxt \<Rightarrow>
             if nxt < 0 then Some (k, cost)
             else (case rd tour k of None \<Rightarrow> None
             | Some cur \<Rightarrow> (case dist_macro t cur nxt of None \<Rightarrow> None
             | Some dd \<Rightarrow> cost_loop t tour (k + 1) (cost + dd))))
      else Some (k, cost))"
  by pat_completeness auto
termination
  by (relation "measure (\<lambda>(t, tour, k, cost). nat (t_n t - k))") auto

declare cost_loop.simps [simp del]

definition compute_cost :: "TSPdata \<Rightarrow> int list \<Rightarrow> int option" where
  "compute_cost t tour = do {
     (k, cost) \<leftarrow> cost_loop t tour 0 0;
     cur \<leftarrow> rd tour k;
     first \<leftarrow> rd tour 0;
     dd \<leftarrow> dist_macro t cur first;
     Some (cost + dd)
   }"

text \<open>
  \<open>is_feasible(tspdata, tour)\<close>: \<open>feasible_loop\<close> is the loop over the tour with its three
  early exits; it returns \<open>flag\<close> and \<open>num_visited\<close>.
\<close>

function feasible_loop ::
  "TSPdata \<Rightarrow> int list \<Rightarrow> int list \<Rightarrow> int \<Rightarrow> int \<Rightarrow> int \<Rightarrow> (int \<times> int) option" where
  "feasible_loop t tour visited k flag num_visited =
     (if k < t_n t then
        (case rd tour k of None \<Rightarrow> None
         | Some v \<Rightarrow>
             if v < 0 then Some (flag, num_visited)
             else if v \<ge> t_n t then Some (0, num_visited)
             else (case rd visited v of None \<Rightarrow> None
             | Some seen \<Rightarrow>
                 if seen \<noteq> 0 then Some (0, num_visited)
                 else (case wr visited v 1 of None \<Rightarrow> None
                 | Some visited' \<Rightarrow> feasible_loop t tour visited' (k + 1) flag (num_visited + 1))))
      else Some (flag, num_visited))"
  by pat_completeness auto
termination
  by (relation "measure (\<lambda>(t, tour, visited, k, flag, num_visited). nat (t_n t - k))") auto

declare feasible_loop.simps [simp del]

definition is_feasible :: "TSPdata \<Rightarrow> int list \<Rightarrow> int option" where
  "is_feasible t tour = do {
     visited \<leftarrow> for_loop 0 (t_n t) (\<lambda>k v. wr v k 0) (replicate (nat (t_n t)) 0);
     (flag, num_visited) \<leftarrow> feasible_loop t tour visited 0 1 0;
     Some (if num_visited < t_min_node_num t then 0 else flag)
   }"

text \<open>
  \<open>evaluate_route(n, route, a, tspdata)\<close>: the fitness vector \<open>a\<close> is cleared, then every
  route is shifted to node indices \<open>0..n-1\<close> in the local array \<open>b\<close> and costed.
\<close>

definition evaluate_route :: "int \<Rightarrow> int list list \<Rightarrow> int list \<Rightarrow> TSPdata \<Rightarrow> int list option" where
  "evaluate_route n route a t = do {
     a0 \<leftarrow> for_loop 0 POPULATION (\<lambda>i a. wr a i 0) a;
     (a', b') \<leftarrow> for_loop 0 POPULATION (\<lambda>i (a, b). do {
         b1 \<leftarrow> for_loop 0 n (\<lambda>j b. do { x \<leftarrow> rd2 route i j; wr b j (x - 1) }) b;
         c \<leftarrow> compute_cost t b1;
         a1 \<leftarrow> wr a i c;
         Some (a1, b1)
       }) (a0, replicate (nat n) 0);
     Some a'
   }"

text \<open>
  \<open>rand()\<close> is a source of non-negative integers: the function \<open>rnd\<close> gives the value of
  the \<open>k\<close>-th call, and the state counts the calls made so far.
  \<open>create_matrix(n, a)\<close> fills the population with \<open>rand() % (n - j) + 1\<close>.
\<close>

definition create_matrix ::
  "(nat \<Rightarrow> int) \<Rightarrow> int \<Rightarrow> int list list \<times> nat \<Rightarrow> (int list list \<times> nat) option" where
  "create_matrix rnd n =
     for_loop 0 POPULATION (\<lambda>i. for_loop 0 n (\<lambda>j (a, calls). do {
       a' \<leftarrow> wr2 a i j (c_mod (rnd calls) (n - j) + 1);
       Some (a', Suc calls)
     }))"

text \<open>
  The local arrays of \<open>genetic_algorithm\<close>, the best-solution array of \<open>Vdata\<close> and the
  number of \<open>rand()\<close> calls made. The local arrays are not initialised in the source, so
  the state the search starts from is a parameter of the model.
\<close>

record ga_state =
  st_gene :: "int list list"
  st_route :: "int list list"
  st_fitness :: "int list"
  st_gene_tmp :: "int list list"
  st_bestsol :: "int list"
  st_rand :: nat

text \<open>One pass through the body of the \<open>while\<close> loop.\<close>

definition generation :: "(nat \<Rightarrow> int) \<Rightarrow> TSPdata \<Rightarrow> ga_state \<Rightarrow> ga_state option" where
  "generation rnd t s = (let len = t_n t in do {
     route \<leftarrow> order_representation len (st_gene s) (st_route s);
     fitness \<leftarrow> evaluate_route len route (st_fitness s) t;
     gene_tmp \<leftarrow> ranking_selection fitness len (st_gene s) (st_gene_tmp s);
     let r1 = c_mod (rnd (st_rand s)) 20;
     let r2 = c_mod (rnd (st_rand s + 1)) 20;
     gene_tmp' \<leftarrow> (if r1 = 7 then rand_crossover len gene_tmp else Some gene_tmp);
     gene \<leftarrow> tow_point_crossover len (st_gene s) gene_tmp';
     (gene', calls) \<leftarrow>
       (if r1 = r2 then do {
          g \<leftarrow> mutation len gene (rnd (st_rand s + 2));
          Some (g, st_rand s + 3)
        } else Some (gene, st_rand s + 2));
     Some (s\<lparr>st_gene := gene', st_route := route, st_fitness := fitness,
              st_gene_tmp := gene_tmp', st_rand := calls\<rparr>)
   })"

text \<open>
  The \<open>while\<close> loop polls \<open>cpu_time()\<close> once per pass: \<open>clock k\<close> is the value of the
  \<open>k\<close>-th poll, in seconds, \<open>start\<close> is \<open>vdata->starttime\<close>. The loop need not end, so
  the outer \<open>option\<close> is \<open>None\<close> when it runs forever; the inner one is \<open>None\<close> when an
  array access of the body is out of range.
\<close>

partial_function (option) generations ::
  "(nat \<Rightarrow> real) \<Rightarrow> (nat \<Rightarrow> int) \<Rightarrow> int \<Rightarrow> TSPdata \<Rightarrow> real \<Rightarrow> nat \<Rightarrow> ga_state \<Rightarrow> ga_state option option" where
  "generations clock rnd timelim t start k s =
     (if clock k - start < real_of_int timelim then
        (case generation rnd t s of None \<Rightarrow> Some None
         | Some s' \<Rightarrow> generations clock rnd timelim t start (Suc k) s')
      else Some (Some s))"

declare generations.simps [code]

definition ga_init :: "(nat \<Rightarrow> int) \<Rightarrow> TSPdata \<Rightarrow> ga_state \<Rightarrow> ga_state option" where
  "ga_init rnd t s = (let len = t_n t in do {
     (gene, calls) \<leftarrow> create_matrix rnd len (st_gene s, 0);
     gene' \<leftarrow> for_loop 0 len (\<lambda>i g. wr2 g 0 i 1) gene;
     bestsol \<leftarrow> for_loop 0 (t_n t) (\<lambda>i b. wr b i i) (st_bestsol s);
     Some (s\<lparr>st_gene := gene', st_bestsol := bestsol, st_rand := calls\<rparr>)
   })"

definition ga_finish :: "TSPdata \<Rightarrow> ga_state \<Rightarrow> ga_state option" where
  "ga_finish t s = (let len = t_n t in do {
     route \<leftarrow> order_representation len (st_gene_tmp s) (st_route s);
     bestsol \<leftarrow> for_loop 0 len (\<lambda>i b. do { x \<leftarrow> rd2 route 0 i; wr b i (x - 1) }) (st_bestsol s);
     Some (s\<lparr>st_route := route, st_bestsol := bestsol\<rparr>)
   })"

text \<open>
  \<open>genetic_algorithm(param, tspdata, vdata)\<close>; the result is the final \<open>vdata->bestsol\<close>.
\<close>

definition genetic_algorithm ::
  "(nat \<Rightarrow> real) \<Rightarrow> (nat \<Rightarrow> int) \<Rightarrow> int \<Rightarrow> TSPdata \<Rightarrow> real \<Rightarrow> ga_state \<Rightarrow> int list option option" where
  "genetic_algorithm clock rnd timelim t start s =
     (case ga_init rnd t s of None \<Rightarrow> Some None
      | Some s0 \<Rightarrow>
          (case generations clock rnd timelim t start 0 s0 of None \<Rightarrow> None
           | Some None \<Rightarrow> Some None
           | Some (Some s1) \<Rightarrow> Some (map_option st_bestsol (ga_finish t s1))))"


section \<open>List-level descriptions used in the statements\<close>

text \<open>
  \<open>select_labels ks rem\<close> is the route that the genes \<open>ks\<close> select from the remaining
  labels \<open>rem\<close>: the label of rank \<open>k\<close> is taken and removed, for each gene in turn.
  The decoder is shown below to compute it whenever it stays inside its arrays.
\<close>

fun select_labels :: "int list \<Rightarrow> int list \<Rightarrow> int list" where
  "select_labels [] rem = []"
| "select_labels (k # ks) rem =
     rem ! nat (k - 1) # select_labels ks (take (nat (k - 1)) rem @ drop (nat k) rem)"

text \<open>
  The middle band \<open>(p/2, p + p/2]\<close> of gene positions, for the cut point \<open>p\<close> of
  \<open>tow_point_crossover\<close>; the outer bands \<open>[0, p/2]\<close> and \<open>(p + p/2, n)\<close> are the rest
  of \<open>[0, n)\<close>.
\<close>

definition middle_band :: "int \<Rightarrow> int \<Rightarrow> bool" where
  "middle_band n j = (let p = crossover_point n in c_div p 2 < j \<and> j \<le> p + c_div p 2)"

text \<open>
  The order in which \<open>ranking_selection\<close> takes the individuals: \<open>x\<close> is taken before \<open>y\<close>
  when its fitness is smaller, or equal with \<open>x\<close> at the larger index.
\<close>

definition taken_before :: "int list \<Rightarrow> nat \<Rightarrow> nat \<Rightarrow> bool" where
  "taken_before a x y = (a ! x < a ! y \<or> (a ! x = a ! y \<and> y < x))"

text \<open>
  The selection as the specification words it, for comparison with the source's: a full
  reordering of the population by ascending fitness, ties kept in their original order
  (a stable sort of the rows by their fitness).
\<close>

definition stable_ranking :: "int list \<Rightarrow> int list list \<Rightarrow> int list list" where
  "stable_ranking a b = map snd (sort_key fst (zip a b))"

text \<open>
  Modelled from the spec: the source has no encoder. Section 4.1 of the specification
  describes \<open>encode(route)\<close> as the inverse of decoding: for each position, the gene is
  the current rank of \<open>route[j]\<close> within the still-remaining labels (counted from 1), and
  that label is then removed. \<open>rank_of\<close> counts up to the first occurrence.
\<close>

fun rank_of :: "int \<Rightarrow> int list \<Rightarrow> int" where
  "rank_of x [] = 1"
| "rank_of x (y # ys) = (if x = y then 1 else rank_of x ys + 1)"

fun encode_from :: "int list \<Rightarrow> int list \<Rightarrow> int list" where
  "encode_from [] rem = []"
| "encode_from (x # xs) rem = rank_of x rem # encode_from xs (remove1 x rem)"

definition encode :: "int \<Rightarrow> int list \<Rightarrow> int list" where
  "encode n route = encode_from route [1..n]"


section \<open>Concrete inputs\<close>

text \<open>Parents and a child buffer for a crossover with \<open>n = 4\<close>.\<close>

definition parents4 :: "int list list" where
  "parents4 = concat (replicate 10 [[1, 1, 1, 1], [2, 2, 2, 1]])"

definition blank4 :: "int list list" where
  "blank4 = replicate 20 [0, 0, 0, 0]"

text \<open>
  Populations for \<open>ranking_selection\<close>: nineteen rows \<open>[1, 1]\<close> followed by \<open>[2, 1]\<close>, and a
  population of four different chromosomes of length three; the output buffers.
\<close>

definition tied_pop :: "int list list" where
  "tied_pop = replicate 19 [1, 1] @ [[2, 1]]"

definition blank2 :: "int list list" where
  "blank2 = replicate 20 [0, 0]"

definition costly_pop :: "int list list" where
  "costly_pop = [[3, 1, 1], [2, 2, 1]] @ replicate 17 [1, 1, 1] @ [[2, 1, 1]]"

definition costly_fitness :: "int list" where
  "costly_fitness = [3000000, 2000000] @ replicate 18 500000"

definition blank3 :: "int list list" where
  "blank3 = replicate 20 [0, 0, 0]"

text \<open>
  An instance with four nodes at the corners \<open>(0,0), (3,0), (3,4), (0,4)\<close> of a rectangle:
  the sides have the lengths 3 and 4, the diagonals 5, so the rounded distances of the
  macro \<open>dist\<close> are these integers.
\<close>

definition rect :: "int \<Rightarrow> int \<Rightarrow> int" where
  "rect k l = (if k = l then 0 else if k + l = 3 then 4 else if \<bar>k - l\<bar> = 1 then 3 else 5)"

definition tsp4 :: TSPdata where
  "tsp4 = \<lparr>t_n = 4, t_min_node_num = 4, t_dist = rect\<rparr>"

text \<open>
  An instance with 22 nodes that all lie on one point, so every distance is 0.
\<close>

definition tsp22 :: TSPdata where
  "tsp22 = \<lparr>t_n = 22, t_min_node_num = 22, t_dist = (\<lambda>k l. 0)\<rparr>"

text \<open>
  A state whose arrays hold \<open>junk\<close> in every cell, for the contents of the uninitialised
  local arrays; \<open>vdata->bestsol\<close> holds the identity tour that \<open>prepare_memory\<close> stored.
\<close>

definition start_state :: "int \<Rightarrow> int list \<Rightarrow> ga_state" where
  "start_state n junk =
     \<lparr>st_gene = replicate 20 junk, st_route = replicate 20 junk,
      st_fitness = replicate 20 0, st_gene_tmp = replicate 20 junk,
      st_bestsol = [0..n - 1], st_rand = 0\<rparr>"

text \<open>
  A run of \<open>rand()\<close>: the first 80 calls fill the population for \<open>n = 4\<close> with the rows
  \<open>[1, 2, 2, 1]\<close>, the later calls alternate between 0 and 1 (so \<open>r1 = 0\<close>, \<open>r2 = 1\<close> in
  every pass: no reinjection, no mutation). The clock advances by half a second per poll.
\<close>

definition rnd_run :: "nat \<Rightarrow> int" where
  "rnd_run k = (if k < 80 then [0, 1, 1, 0] ! (k mod 4) else int ((k - 80) mod 2))"

definition clock_half :: "nat \<Rightarrow> real" where
  "clock_half k = real k / 2"

text \<open>
  Populations of twenty identity chromosomes of length 22 and of length 10, as search
  states, and an instance with 10 nodes on one point.
\<close>

definition ones22 :: "int list" where
  "ones22 = replicate 22 1"

definition state22 :: ga_state where
  "state22 = start_state 22 ones22"

definition tsp10 :: TSPdata where
  "tsp10 = \<lparr>t_n = 10, t_min_node_num = 10, t_dist = (\<lambda>k l. 0)\<rparr>"

definition state10 :: ga_state where
  "state10 = start_state 10 (replicate 10 1)"


section \<open>Basic facts about checked arrays and loops\<close>

lemma rd_Some [simp]: "0 \<le> i \<Longrightarrow> i < int (length a) \<Longrightarrow> rd a i = Some (a ! nat i)"
  by (simp add: rd_def)

lemma rd_None [simp]: "i < 0 \<or> int (length a) \<le> i \<Longrightarrow> rd a i = None"
  by (auto simp: rd_def)

lemma wr_Some [simp]: "0 \<le> i \<Longrightarrow> i < int (length a) \<Longrightarrow> wr a i v = Some (a[nat i := v])"
  by (simp add: wr_def)

lemma wr_None [simp]: "i < 0 \<or> int (length a) \<le> i \<Longrightarrow> wr a i v = None"
  by (auto simp: wr_def)

lemma for_loop_step:
  "i < hi \<Longrightarrow> for_loop i hi body s =
     (case body i s of None \<Rightarrow> None | Some s' \<Rightarrow> for_loop (i + 1) hi body s')"
  by (subst for_loop.simps) simp

lemma for_loop_done: "hi \<le> i \<Longrightarrow> for_loop i hi body s = Some s"
  by (subst for_loop.simps) simp

lemma for_loop_inv:
  assumes "I i s" and "i \<le> hi"
    and step: "\<And>k t. i \<le> k \<Longrightarrow> k < hi \<Longrightarrow> I k t \<Longrightarrow> \<exists>t'. body k t = Some t' \<and> I (k + 1) t'"
  shows "\<exists>t. for_loop i hi body s = Some t \<and> I hi t"
  using assms
proof (induction "nat (hi - i)" arbitrary: i s)
  case 0
  then have "i = hi" by simp
  with 0 show ?case by (simp add: for_loop_done)
next
  case (Suc m)
  then have lt: "i < hi" by simp
  from Suc.prems(3)[OF order_refl lt Suc.prems(1)] obtain t' where
    t': "body i s = Some t'" "I (i + 1) t'" by blast
  have "\<exists>t. for_loop (i + 1) hi body t' = Some t \<and> I hi t"
  proof (rule Suc.hyps(1))
    show "m = nat (hi - (i + 1))" using Suc.hyps(2) by simp
    show "I (i + 1) t'" by fact
    show "i + 1 \<le> hi" using lt by simp
    show "\<And>k t. i + 1 \<le> k \<Longrightarrow> k < hi \<Longrightarrow> I k t \<Longrightarrow> \<exists>t'. body k t = Some t' \<and> I (k + 1) t'"
      using Suc.prems(3) by simp
  qed
  then show ?case by (simp add: for_loop_step[OF lt] t')
qed

lemma for_loop_split:
  assumes "lo \<le> mid" "mid \<le> hi"
  shows "for_loop lo hi body s = Option.bind (for_loop lo mid body s) (for_loop mid hi body)"
  using assms
proof (induction "nat (mid - lo)" arbitrary: lo s)
  case 0
  then have "lo = mid" by simp
  then show ?case by (simp add: for_loop_done)
next
  case (Suc m)
  then have lt: "lo < mid" "lo < hi" by simp_all
  have IH: "for_loop (lo + 1) hi body s' =
      Option.bind (for_loop (lo + 1) mid body s') (for_loop mid hi body)" for s'
    using Suc.hyps(2) Suc.prems lt by (intro Suc.hyps(1)) auto
  show ?case
    by (cases "body lo s") (simp_all add: for_loop_step lt IH)
qed


lemma c_div_nonneg [simp]: "0 \<le> a \<Longrightarrow> 0 < b \<Longrightarrow> c_div a b = a div b"
  by (cases "a = 0") (simp_all add: c_div_def)

lemma c_mod_nonneg [simp]: "0 \<le> a \<Longrightarrow> 0 < b \<Longrightarrow> c_mod a b = a mod b"
  by (simp add: c_mod_def minus_mult_div_eq_mod)

lemma mutation_point_ceil: "0 \<le> n \<Longrightarrow> mutation_point n = (n + 1) div 2"
  by (auto simp: mutation_point_def)


section \<open>Decoding: what the codec computes\<close>

lemma shift_loop_spec:
  assumes "0 \<le> i" and "length a = nat n"
  shows "\<exists>a' i'. shift_loop a n i = Some (a', i') \<and> length a' = length a \<and>
     (\<forall>p < length a. a' ! p = (if nat i \<le> p \<and> Suc p < length a then a ! Suc p else a ! p))"
  using assms
proof (induction a n i rule: shift_loop.induct)
  case (1 a n i)
  show ?case
  proof (cases "i < n - 1")
    case True
    let ?a1 = "a[nat i := a ! nat (i + 1)]"
    have x: "rd a (i + 1) = Some (a ! nat (i + 1))" using True 1 by simp
    have w: "wr a i (a ! nat (i + 1)) = Some ?a1" using True 1 by simp
    from "1.IH"[OF True x w] "1.prems" obtain a' i' where
      r: "shift_loop ?a1 n (i + 1) = Some (a', i')" and l: "length a' = length a"
      and v: "\<forall>p < length a. a' ! p = (if nat (i + 1) \<le> p \<and> Suc p < length a then ?a1 ! Suc p else ?a1 ! p)"
      by auto
    have "shift_loop a n i = Some (a', i')"
      by (subst shift_loop.simps) (simp add: True x w r)
    moreover have "\<forall>p < length a. a' ! p = (if nat i \<le> p \<and> Suc p < length a then a ! Suc p else a ! p)"
    proof (intro allI impI)
      fix p assume p: "p < length a"
      show "a' ! p = (if nat i \<le> p \<and> Suc p < length a then a ! Suc p else a ! p)"
        using v[rule_format, OF p] p True "1.prems"
        by (auto simp: nat_add_distrib nth_list_update)
    qed
    ultimately show ?thesis using l by blast
  next
    case False
    have "shift_loop a n i = Some (a, i)"
      by (subst shift_loop.simps) (simp add: False)
    moreover have "\<not> (nat i \<le> p \<and> Suc p < length a)" for p
      using False "1.prems" by auto
    ultimately show ?thesis by auto
  qed
qed


lemma copy_array_from_skip:
  assumes "0 \<le> i" "i \<le> j - 1" "j - 1 < n"
  shows "copy_array_from a n j i = copy_array_from a n j (j - 1)"
  using assms
proof (induction "nat (j - 1 - i)" arbitrary: i)
  case 0
  then have "i = j - 1" by simp
  then show ?case by simp
next
  case (Suc m)
  then have lt: "i < j - 1" by simp
  have "copy_array_from a n j i = copy_array_from a n j (i + 1)"
    using lt Suc.prems by (subst copy_array_from.simps) simp
  also have "\<dots> = copy_array_from a n j (j - 1)"
    using Suc.prems Suc.hyps(2) lt by (intro Suc.hyps(1)) auto
  finally show ?case .
qed

lemma copy_array_from_past: "n \<le> i \<Longrightarrow> copy_array_from a n j i = Some a"
  by (subst copy_array_from.simps) simp

lemma removed_nth:
  assumes "1 \<le> J" "J < length a" "p < length a"
  shows "(take (J - 1) a @ drop J a @ [0::int]) ! p =
     (if p < J - 1 then a ! p else if p < length a - 1 then a ! Suc p else 0)"
proof -
  define xs where "xs = take (J - 1) a"
  define ys where "ys = drop J a"
  have lx: "length xs = J - 1" using assms by (simp add: xs_def)
  have ly: "length ys = length a - J" by (simp add: ys_def)
  have xn: "q < J - 1 \<Longrightarrow> xs ! q = a ! q" for q by (simp add: xs_def)
  have yn: "q < length a - J \<Longrightarrow> ys ! q = a ! (J + q)" for q
    using assms by (simp add: ys_def)
  have "(xs @ ys @ [0]) ! p =
     (if p < J - 1 then a ! p else if p < length a - 1 then a ! Suc p else 0)"
  proof (cases "p < J - 1")
    case True
    then show ?thesis by (simp add: nth_append lx xn)
  next
    case False
    show ?thesis
    proof (cases "p < length a - 1")
      case True
      have q: "p - (J - 1) < length a - J" using True False assms by linarith
      have e: "J + (p - (J - 1)) = Suc p" using False assms by linarith
      show ?thesis using True False q e by (simp add: nth_append lx ly yn)
    next
      case F2: False
      then have pe: "p = length a - 1" using assms by linarith
      have q: "p - (J - 1) = length a - J" using pe assms by linarith
      show ?thesis using F2 False q by (simp add: nth_append lx ly)
    qed
  qed
  then show ?thesis by (simp add: xs_def ys_def)
qed
text \<open>Removing the label of rank \<open>j\<close>, for \<open>j\<close> below the array length.\<close>

lemma copy_array_spec:
  assumes "1 \<le> j" "j < n" "length a = nat n"
  shows "copy_array a n j = Some (take (nat (j - 1)) a @ drop (nat j) a @ [0])"
proof -
  from shift_loop_spec[of j "a[nat (j - 1) := a ! nat j]" n] assms obtain a2 i2 where
    s: "shift_loop (a[nat (j - 1) := a ! nat j]) n j = Some (a2, i2)"
    and l: "length a2 = length a"
    and v: "\<forall>p < length a. a2 ! p =
       (if nat j \<le> p \<and> Suc p < length a then (a[nat (j - 1) := a ! nat j]) ! Suc p
        else (a[nat (j - 1) := a ! nat j]) ! p)"
    by auto
  have i2: "n - 1 \<le> i2" using shift_loop_counter[OF s] by simp
  have "copy_array a n j = copy_array_from a n j (j - 1)"
    unfolding copy_array_def using assms by (intro copy_array_from_skip) auto
  also have "\<dots> = Some (a2[nat (n - 1) := 0])"
    using assms s l i2
    by (subst copy_array_from.simps) (simp add: copy_array_from_past)
  also have "a2[nat (n - 1) := 0] = take (nat (j - 1)) a @ drop (nat j) a @ [0]"
  proof (rule nth_equalityI)
    show "length (a2[nat (n - 1) := 0]) = length (take (nat (j - 1)) a @ drop (nat j) a @ [0])"
      using assms l by auto
  next
    fix p assume "p < length (a2[nat (n - 1) := 0])"
    then have p: "p < length a" using l by simp
    define J where "J = nat j"
    have J: "1 \<le> J" "J < length a" "nat (j - 1) = J - 1" "nat (n - 1) = length a - 1"
      using assms by (auto simp: J_def)
    have vp: "a2 ! p = (if J \<le> p \<and> Suc p < length a then (a[J - 1 := a ! J]) ! Suc p
        else (a[J - 1 := a ! J]) ! p)"
      using v[rule_format, OF p] J by (simp add: J_def)
    have "a2[length a - 1 := 0] ! p = (take (J - 1) a @ drop J a @ [0]) ! p"
      unfolding removed_nth[OF J(1,2) p]
      using J(1,2) l p vp by (auto simp: nth_list_update)
    then show "a2[nat (n - 1) := 0] ! p = (take (nat (j - 1)) a @ drop (nat j) a @ [0]) ! p"
      using J by (simp add: J_def)
  qed
  finally show ?thesis .
qed

text \<open>Removing the label of rank \<open>n\<close>: the first shift reads \<open>a[n]\<close>.\<close>

lemma copy_array_last:
  assumes "1 \<le> n" "length a = nat n"
  shows "copy_array a n n = None"
proof -
  have "copy_array a n n = copy_array_from a n n (n - 1)"
    unfolding copy_array_def using assms by (intro copy_array_from_skip) auto
  also have "\<dots> = None"
    using assms by (subst copy_array_from.simps) simp
  finally show ?thesis .
qed

text \<open>A rank outside \<open>1..n\<close> matches no counter value: the array is left as it is.\<close>

lemma copy_array_from_nomatch:
  assumes "j - 1 < i \<or> n \<le> j - 1"
  shows "copy_array_from a n j i = Some a"
  using assms
proof (induction "nat (n - i)" arbitrary: i)
  case 0
  then show ?case by (simp add: copy_array_from_past)
next
  case (Suc m)
  then have lt: "i < n" by simp
  have "copy_array_from a n j i = copy_array_from a n j (i + 1)"
    using lt Suc.prems by (subst copy_array_from.simps) auto
  also have "\<dots> = Some a"
    using Suc.prems Suc.hyps(2) lt by (intro Suc.hyps(1)) auto
  finally show ?case .
qed


lemma genes_in_range_nth:
  "genes_in_range n j gs \<Longrightarrow> p < length gs \<Longrightarrow> 1 \<le> gs ! p \<and> gs ! p \<le> n - j - int p"
proof (induction gs arbitrary: j p)
  case Nil
  then show ?case by simp
next
  case (Cons g gs)
  show ?case
  proof (cases p)
    case 0
    with Cons.prems show ?thesis by simp
  next
    case (Suc q)
    with Cons.prems have "1 \<le> gs ! q \<and> gs ! q \<le> n - (j + 1) - int q"
      by (intro Cons.IH) auto
    with Suc show ?thesis by simp
  qed
qed

lemma fill_order_list_spec:
  assumes "0 \<le> n" "length ol = nat n"
  shows "fill_order_list n ol = Some [1..n]"
proof -
  let ?I = "\<lambda>j l. length l = nat n \<and> (\<forall>p < nat j. l ! p = int p + 1)"
  have "\<exists>t. for_loop 0 n (\<lambda>j ol. wr ol j (j + 1)) ol = Some t \<and> ?I n t"
  proof (rule for_loop_inv[where I = ?I])
    show "?I 0 ol" using assms by simp
    show "0 \<le> n" by fact
  next
    fix k t assume k: "0 \<le> k" "k < n" and I: "?I k t"
    have "wr t k (k + 1) = Some (t[nat k := k + 1])" using k I by simp
    moreover have "?I (k + 1) (t[nat k := k + 1])"
    proof (intro conjI allI impI)
      show "length (t[nat k := k + 1]) = nat n" using I by simp
      fix p assume "p < nat (k + 1)"
      then have "p < nat k \<or> p = nat k" using k by linarith
      then show "t[nat k := k + 1] ! p = int p + 1"
        using I k by (auto simp: nth_list_update)
    qed
    ultimately show "\<exists>t'. wr t k (k + 1) = Some t' \<and> ?I (k + 1) t'" by blast
  qed
  then obtain t where t: "for_loop 0 n (\<lambda>j ol. wr ol j (j + 1)) ol = Some t"
    and l: "length t = nat n" and v: "\<forall>p < nat n. t ! p = int p + 1" by blast
  have "t = [1..n]"
  proof (rule nth_equalityI)
    show "length t = length [1..n]" using l assms by simp
    fix p assume "p < length t"
    then show "t ! p = [1..n] ! p" using v l by simp
  qed
  with t show ?thesis by (simp add: fill_order_list_def)
qed


lemma decode_gene_spec:
  assumes i: "0 \<le> i" "i < int (length a)" "i < int (length route)"
    and j: "0 \<le> j" "j < int (length (a ! nat i))" "j < n"
    and k: "a ! nat i ! nat j = k" "1 \<le> k" "k \<le> int (length rem)" "k < n"
    and r: "length r = nat n"
    and ol: "length rem + nat j = nat n"
  shows "decode_gene n a i j (route[nat i := r], rem @ replicate (nat j) 0) =
     Some (route[nat i := r[nat j := rem ! nat (k - 1)]],
           (take (nat (k - 1)) rem @ drop (nat k) rem) @ replicate (nat (j + 1)) 0)"
proof -
  let ?ol = "rem @ replicate (nat j) 0"
  have len: "length ?ol = nat n" using ol by simp
  have g: "rd2 a i j = Some k" using i j k by (simp add: rd2_def)
  have x: "rd ?ol (k - 1) = Some (rem ! nat (k - 1))"
    using k(2,3) by (auto simp: rd_def nth_append)
  have w: "wr2 (route[nat i := r]) i j (rem ! nat (k - 1)) =
     Some (route[nat i := r[nat j := rem ! nat (k - 1)]])"
    using i j r by (simp add: wr2_def)
  have "copy_array ?ol n k = Some (take (nat (k - 1)) ?ol @ drop (nat k) ?ol @ [0])"
    using k len by (intro copy_array_spec) auto
  also have "take (nat (k - 1)) ?ol = take (nat (k - 1)) rem" using k by simp
  also have "drop (nat k) ?ol = drop (nat k) rem @ replicate (nat j) 0" using k by simp
  also have "(drop (nat k) rem @ replicate (nat j) 0) @ [0] = drop (nat k) rem @ replicate (nat (j + 1)) 0"
    using j by (simp add: nat_add_distrib replicate_append_same)
  finally have c: "copy_array ?ol n k =
     Some ((take (nat (k - 1)) rem @ drop (nat k) rem) @ replicate (nat (j + 1)) 0)"
    by simp
  show ?thesis by (simp add: decode_gene_def g x w c)
qed


lemma decode_row_spec:
  assumes i: "0 \<le> i" "i < int (length a)" "i < int (length route)"
    and ok: "chromosome_ok n (a ! nat i)" and n: "1 \<le> n"
    and first: "a ! nat i ! 0 < n"
    and r0: "length (route ! nat i) = nat n" and ol: "length ol = nat n"
  shows "\<exists>ol'. decode_row n a i (route, ol) =
      Some (route[nat i := select_labels (a ! nat i) [1..n]], ol') \<and> length ol' = nat n"
proof -
  let ?g = "a ! nat i"
  let ?goal = "select_labels ?g [1..n]"
  have lg: "int (length ?g) = n" and rng: "genes_in_range n 0 ?g"
    using ok by (simp_all add: chromosome_ok_def)
  let ?I = "\<lambda>j t. \<exists>r rem. t = (route[nat i := r], rem @ replicate (nat j) 0) \<and>
      length r = nat n \<and> length rem + nat j = nat n \<and>
      take (nat j) r @ select_labels (drop (nat j) ?g) rem = ?goal"
  have "\<exists>t. for_loop 0 n (decode_gene n a i) (route, [1..n]) = Some t \<and> ?I n t"
  proof (rule for_loop_inv[where I = ?I])
    show "?I 0 (route, [1..n])"
      using r0 n by (intro exI[of _ "route ! nat i"] exI[of _ "[1..n]"]) simp
    show "0 \<le> n" using n by simp
  next
    fix j t assume j: "0 \<le> j" "j < n" and I: "?I j t"
    then obtain r rem where t: "t = (route[nat i := r], rem @ replicate (nat j) 0)"
      and lr: "length r = nat n" and lrem: "length rem + nat j = nat n"
      and eq: "take (nat j) r @ select_labels (drop (nat j) ?g) rem = ?goal"
      by blast
    define k where "k = ?g ! nat j"
    have jl: "nat j < length ?g" using j lg by linarith
    from genes_in_range_nth[OF rng jl] have k1: "1 \<le> k" and k2: "k \<le> n - j"
      using j by (simp_all add: k_def)
    have k3: "k \<le> int (length rem)" using k2 lrem j by linarith
    have k4: "k < n"
    proof (cases "j = 0")
      case True
      then show ?thesis using first by (simp add: k_def)
    next
      case False
      then show ?thesis using k2 j by linarith
    qed
    let ?r' = "r[nat j := rem ! nat (k - 1)]"
    let ?rem' = "take (nat (k - 1)) rem @ drop (nat k) rem"
    have step: "decode_gene n a i j t = Some (route[nat i := ?r'], ?rem' @ replicate (nat (j + 1)) 0)"
      unfolding t using i j lg k1 k3 k4 lr lrem
      by (intro decode_gene_spec) (simp_all add: k_def)
    have "length ?rem' + nat (j + 1) = nat n"
      using k1 k3 lrem j by (simp add: nat_add_distrib)
    moreover have "take (nat (j + 1)) ?r' @ select_labels (drop (nat (j + 1)) ?g) ?rem' = ?goal"
    proof -
      have d: "drop (nat j) ?g = k # drop (nat (j + 1)) ?g"
        using jl j by (simp add: k_def Cons_nth_drop_Suc nat_add_distrib)
      have tk: "take (nat (j + 1)) ?r' = take (nat j) r @ [rem ! nat (k - 1)]"
        using j lr by (simp add: nat_add_distrib take_Suc_conv_app_nth)
      show ?thesis using eq by (simp add: d tk)
    qed
    ultimately have "?I (j + 1) (route[nat i := ?r'], ?rem' @ replicate (nat (j + 1)) 0)"
      using lr by (intro exI[of _ ?r'] exI[of _ ?rem']) simp
    with step show "\<exists>t'. decode_gene n a i j t = Some t' \<and> ?I (j + 1) t'" by blast
  qed
  then obtain r rem where
    run: "for_loop 0 n (decode_gene n a i) (route, [1..n]) = Some (route[nat i := r], rem @ replicate (nat n) 0)"
    and lr: "length r = nat n" and lrem: "length rem + nat n = nat n"
    and eq: "take (nat n) r @ select_labels (drop (nat n) ?g) rem = ?goal"
    by blast
  have "r = ?goal" using eq lr lg by simp
  moreover have "fill_order_list n ol = Some [1..n]"
    using n ol by (intro fill_order_list_spec) auto
  ultimately show ?thesis using run lrem by (simp add: decode_row_def)
qed


lemma mset_remove_nth:
  "K < length rem \<Longrightarrow> add_mset (rem ! K) (mset (take K rem @ drop (Suc K) rem)) = mset rem"
proof -
  assume "K < length rem"
  then have "rem = take K rem @ rem ! K # drop (Suc K) rem" by (rule id_take_nth_drop)
  then have "mset rem = mset (take K rem @ rem ! K # drop (Suc K) rem)" by simp
  then show ?thesis by simp
qed

lemma select_labels_length: "length (select_labels ks rem) = length ks"
  by (induction ks arbitrary: rem) auto

lemma select_labels_mset:
  "int (length rem) = n - j \<Longrightarrow> length ks = length rem \<Longrightarrow> genes_in_range n j ks \<Longrightarrow>
   mset (select_labels ks rem) = mset rem"
proof (induction ks arbitrary: rem j)
  case Nil
  then show ?case by simp
next
  case (Cons k ks)
  then have k: "1 \<le> k" "k \<le> int (length rem)" and rng: "genes_in_range n (j + 1) ks"
    by simp_all
  let ?rest = "take (nat (k - 1)) rem @ drop (nat k) rem"
  have K: "nat (k - 1) < length rem" "nat k = Suc (nat (k - 1))" using k by linarith+
  have "mset (select_labels ks ?rest) = mset ?rest"
  proof (rule Cons.IH[OF _ _ rng])
    show "int (length ?rest) = n - (j + 1)" using k Cons.prems(1) by simp
    show "length ks = length ?rest" using k Cons.prems(2) by simp
  qed
  then have "mset (select_labels (k # ks) rem) = add_mset (rem ! nat (k - 1)) (mset ?rest)"
    by simp
  also have "\<dots> = mset rem"
    unfolding K(2) by (rule mset_remove_nth[OF K(1)])
  finally show ?case .
qed

text \<open>
  The first \<open>m\<close> rows of the loop over the population, when they are all in range and
  none of them starts with the gene \<open>n\<close>.
\<close>

lemma decode_rows_prefix:
  assumes n: "1 \<le> n"
    and shape: "int (length a) = POPULATION" "int (length route) = POPULATION"
      "\<forall>r < length route. length (route ! r) = nat n"
    and m: "0 \<le> m" "m \<le> POPULATION"
    and ok: "\<forall>r < nat m. chromosome_ok n (a ! r) \<and> a ! r ! 0 < n"
    and ol0: "length ol0 = nat n"
  shows "\<exists>rt ol. for_loop 0 m (decode_row n a) (route, ol0) = Some (rt, ol) \<and>
     length rt = length a \<and> length ol = nat n \<and>
     (\<forall>r < length a. rt ! r = (if r < nat m then select_labels (a ! r) [1..n] else route ! r))"
proof -
  let ?dec = "\<lambda>c. select_labels c [1..n]"
  let ?I = "\<lambda>i t. \<exists>rt (ol :: int list). t = (rt, ol) \<and> length rt = length a \<and> length ol = nat n \<and>
     (\<forall>r < length a. rt ! r = (if r < nat i then ?dec (a ! r) else route ! r))"
  have "\<exists>t. for_loop 0 m (decode_row n a) (route, ol0) = Some t \<and> ?I m t"
  proof (rule for_loop_inv[where I = ?I])
    show "?I 0 (route, ol0)" using shape ol0 by simp
    show "0 \<le> m" by fact
  next
    fix i t assume i: "0 \<le> i" "i < m" and I: "?I i t"
    then obtain rt ol where t: "t = (rt, ol)" and l: "length rt = length a" "length ol = nat n"
      and v: "\<forall>r < length a. rt ! r = (if r < nat i then ?dec (a ! r) else route ! r)"
      by blast
    have il: "nat i < length a" "nat i < nat m" using i m shape by linarith+
    have "\<exists>ol'. decode_row n a i (rt, ol) = Some (rt[nat i := ?dec (a ! nat i)], ol') \<and>
       length ol' = nat n"
    proof (rule decode_row_spec)
      show "0 \<le> i" "i < int (length a)" "i < int (length rt)" using i m shape l by simp_all
      show "chromosome_ok n (a ! nat i)" "a ! nat i ! 0 < n" using ok il by simp_all
      show "1 \<le> n" by fact
      show "length (rt ! nat i) = nat n" using v il shape by simp
      show "length ol = nat n" by fact
    qed
    then obtain ol' where d: "decode_row n a i t = Some (rt[nat i := ?dec (a ! nat i)], ol')"
      and l': "length ol' = nat n" using t by blast
    have "?I (i + 1) (rt[nat i := ?dec (a ! nat i)], ol')"
    proof (intro exI conjI allI impI)
      show "(rt[nat i := ?dec (a ! nat i)], ol') = (rt[nat i := ?dec (a ! nat i)], ol')" ..
      show "length (rt[nat i := ?dec (a ! nat i)]) = length a" using l by simp
      show "length ol' = nat n" by fact
      fix r assume r: "r < length a"
      have "nat (i + 1) = Suc (nat i)" using i by linarith
      then show "rt[nat i := ?dec (a ! nat i)] ! r =
          (if r < nat (i + 1) then ?dec (a ! r) else route ! r)"
        using v[rule_format, OF r] r l
        by (cases "r = nat i") (simp_all add: less_Suc_eq)
    qed
    with d show "\<exists>t'. decode_row n a i t = Some t' \<and> ?I (i + 1) t'" by blast
  qed
  then show ?thesis by blast
qed

text \<open>
  Decoding a whole population whose rows are all in range and none of which starts with
  the gene \<open>n\<close>: every row of the result is the selection its chromosome describes, a
  permutation of \<open>1..n\<close>.
\<close>

lemma order_representation_rows:
  assumes n: "1 \<le> n"
    and shape: "int (length a) = POPULATION" "int (length route) = POPULATION"
      "\<forall>r < length route. length (route ! r) = nat n"
    and ok: "\<forall>r < length a. chromosome_ok n (a ! r) \<and> a ! r ! 0 < n"
  shows "order_representation n a route = Some (map (\<lambda>c. select_labels c [1..n]) a)"
proof -
  let ?dec = "\<lambda>c. select_labels c [1..n]"
  have la: "nat POPULATION = length a" using shape by linarith
  from decode_rows_prefix[OF n shape, of POPULATION "replicate (nat n) 0"] ok la
  obtain rt ol where
    run: "for_loop 0 POPULATION (decode_row n a) (route, replicate (nat n) 0) = Some (rt, ol)"
    and l: "length rt = length a"
    and v: "\<forall>r < length a. rt ! r = (if r < nat POPULATION then ?dec (a ! r) else route ! r)"
    by (auto simp: POPULATION_def)
  have "rt = map ?dec a"
  proof (rule nth_equalityI)
    show "length rt = length (map ?dec a)" using l by simp
    fix r assume "r < length rt"
    then have r: "r < length a" using l by simp
    then show "rt ! r = map ?dec a ! r" using v[rule_format, OF r] la by simp
  qed
  with run show ?thesis by (simp add: order_representation_def)
qed

lemma order_representation_permutation:
  assumes n: "1 \<le> n"
    and shape: "int (length a) = POPULATION" "int (length route) = POPULATION"
      "\<forall>r < length route. length (route ! r) = nat n"
    and ok: "\<forall>r < length a. chromosome_ok n (a ! r) \<and> a ! r ! 0 < n"
  shows "\<exists>route'. order_representation n a route = Some route' \<and> length route' = length a \<and>
     (\<forall>r < length a. mset (route' ! r) = mset [1..n] \<and> distinct (route' ! r))"
proof -
  have run: "order_representation n a route = Some (map (\<lambda>c. select_labels c [1..n]) a)"
    using assms by (rule order_representation_rows)
  have "mset (select_labels (a ! r) [1..n]) = mset [1..n] \<and> distinct (select_labels (a ! r) [1..n])"
    if r: "r < length a" for r
  proof -
    from ok r have c: "int (length (a ! r)) = n" "genes_in_range n 0 (a ! r)"
      by (simp_all add: chromosome_ok_def)
    have m: "mset (select_labels (a ! r) [1..n]) = mset [1..n]"
      using c n by (intro select_labels_mset[where n = n and j = 0]) auto
    moreover have "distinct [1..n]" by simp
    ultimately show ?thesis using mset_eq_imp_distinct_iff by blast
  qed
  with run show ?thesis by simp
qed

lemma decode_row_first_gene_n:
  assumes i: "0 \<le> i" "i < int (length a)" "i < int (length route)"
    and n: "1 \<le> n" and g: "a ! nat i \<noteq> []" "a ! nat i ! 0 = n"
    and r0: "route ! nat i \<noteq> []" and ol: "length ol = nat n"
  shows "decode_row n a i (route, ol) = None"
proof -
  have f: "fill_order_list n ol = Some [1..n]"
    using n ol by (intro fill_order_list_spec) auto
  have k: "rd2 a i 0 = Some n" using i g by (simp add: rd2_def)
  have x: "rd [1..n] (n - 1) = Some n" using n by (simp add: rd_def)
  have w: "wr2 route i 0 n = Some (route[nat i := (route ! nat i)[0 := n]])"
    using i r0 by (simp add: wr2_def)
  have c: "copy_array [1..n] n n = None" using n by (intro copy_array_last) auto
  have "decode_gene n a i 0 (route, [1..n]) = None"
    by (simp add: decode_gene_def k x w c)
  then have "for_loop 0 n (decode_gene n a i) (route, [1..n]) = None"
    using n by (simp add: for_loop_step)
  with f show ?thesis by (simp add: decode_row_def)
qed

text \<open>
  A population in range with a row that starts with the gene \<open>n\<close>: decoding leaves the
  working list at the first such row.
\<close>

lemma order_representation_first_gene_n:
  assumes n: "1 \<le> n"
    and shape: "int (length a) = POPULATION" "int (length route) = POPULATION"
      "\<forall>r < length route. length (route ! r) = nat n"
    and ok: "\<forall>r < length a. chromosome_ok n (a ! r)"
    and bad: "\<exists>r < length a. a ! r ! 0 = n"
  shows "order_representation n a route = None"
proof -
  define q where "q = (LEAST r. r < length a \<and> a ! r ! 0 = n)"
  have q: "q < length a" "a ! q ! 0 = n"
    using LeastI_ex[OF bad] by (simp_all add: q_def)
  have least: "\<not> (r < length a \<and> a ! r ! 0 = n)" if "r < q" for r
    using not_less_Least that unfolding q_def by blast
  have lenrow: "int (length (a ! r)) = n" "genes_in_range n 0 (a ! r)" if "r < length a" for r
    using ok that by (simp_all add: chromosome_ok_def)
  have before: "\<forall>r < nat (int q). chromosome_ok n (a ! r) \<and> a ! r ! 0 < n"
  proof (intro allI impI)
    fix r assume "r < nat (int q)"
    then have r: "r < q" "r < length a" using q by simp_all
    have "0 < length (a ! r)" using lenrow(1)[OF r(2)] n by linarith
    from genes_in_range_nth[OF lenrow(2)[OF r(2)] this] least[OF r(1)] r(2)
    have "a ! r ! 0 < n" by simp
    then show "chromosome_ok n (a ! r) \<and> a ! r ! 0 < n" using ok r by simp
  qed
  have qP: "int q \<le> POPULATION" "int q < POPULATION" using q shape by linarith+
  from decode_rows_prefix[OF n shape _ qP(1) before, of "replicate (nat n) 0"]
  obtain rt ol where
    pre: "for_loop 0 (int q) (decode_row n a) (route, replicate (nat n) 0) = Some (rt, ol)"
    and l: "length rt = length a" "length ol = nat n"
    and v: "\<forall>r < length a. rt ! r = (if r < nat (int q) then select_labels (a ! r) [1..n] else route ! r)"
    by auto
  have "rt ! q = route ! q" using v q by simp
  moreover have "length (route ! q) = nat n" using shape q by simp
  ultimately have rq: "rt ! q \<noteq> []" using n by auto
  have aq: "a ! q \<noteq> []" using lenrow(1)[OF q(1)] n by auto
  have "decode_row n a (int q) (rt, ol) = None"
    using q l n aq rq shape by (intro decode_row_first_gene_n) simp_all
  then have "for_loop (int q) POPULATION (decode_row n a) (rt, ol) = None"
    using qP by (simp add: for_loop_step)
  moreover have "for_loop 0 POPULATION (decode_row n a) (route, replicate (nat n) 0) =
     Option.bind (for_loop 0 (int q) (decode_row n a) (route, replicate (nat n) 0))
       (for_loop (int q) POPULATION (decode_row n a))"
    using qP by (intro for_loop_split) simp_all
  ultimately show ?thesis using pre by (simp add: order_representation_def)
qed


section \<open>Decoding when the cell behind the working list can be read\<close>

lemma rd_past_in: "0 \<le> i \<Longrightarrow> i < int (length a) \<Longrightarrow> rd_past v a i = Some (a ! nat i)"
  by (simp add: rd_past_def)

lemma rd_past_end: "i = int (length a) \<Longrightarrow> rd_past v a i = Some v"
  by (simp add: rd_past_def)

lemma shift_loop_past_eq:
  assumes "0 \<le> i" and "length a = nat n"
  shows "shift_loop_past v a n i = shift_loop a n i"
  using assms
proof (induction a n i rule: shift_loop.induct)
  case (1 a n i)
  show ?case
  proof (cases "i < n - 1")
    case True
    let ?a1 = "a[nat i := a ! nat (i + 1)]"
    have x: "rd a (i + 1) = Some (a ! nat (i + 1))" using True 1 by simp
    have xp: "rd_past v a (i + 1) = Some (a ! nat (i + 1))"
      using True "1.prems" by (intro rd_past_in) simp_all
    have w: "wr a i (a ! nat (i + 1)) = Some ?a1" using True 1 by simp
    have "shift_loop_past v ?a1 n (i + 1) = shift_loop ?a1 n (i + 1)"
      using "1.prems" by (intro "1.IH"[OF True x w]) simp_all
    then show ?thesis
      by (subst shift_loop_past.simps, subst shift_loop.simps) (simp add: True x xp w)
  next
    case False
    then show ?thesis
      by (subst shift_loop_past.simps, subst shift_loop.simps) simp
  qed
qed

lemma copy_array_from_past_skip:
  assumes "0 \<le> i" "i \<le> j - 1" "j - 1 < n"
  shows "copy_array_from_past v a n j i = copy_array_from_past v a n j (j - 1)"
  using assms
proof (induction "nat (j - 1 - i)" arbitrary: i)
  case 0
  then have "i = j - 1" by simp
  then show ?case by simp
next
  case (Suc m)
  then have lt: "i < j - 1" by simp
  have "copy_array_from_past v a n j i = copy_array_from_past v a n j (i + 1)"
    using lt Suc.prems by (subst copy_array_from_past.simps) simp
  also have "\<dots> = copy_array_from_past v a n j (j - 1)"
    using Suc.prems Suc.hyps(2) lt by (intro Suc.hyps(1)) auto
  finally show ?case .
qed

lemma copy_array_from_past_done: "n \<le> i \<Longrightarrow> copy_array_from_past v a n j i = Some a"
  by (subst copy_array_from_past.simps) simp

text \<open>
  Removing the label of rank \<open>j\<close>, for every rank up to the array length: for \<open>j = n\<close>
  the value read behind the array is stored in the last cell and at once replaced by 0.
\<close>

lemma copy_array_past_spec:
  assumes "1 \<le> j" "j \<le> n" "length a = nat n"
  shows "copy_array_past v a n j = Some (take (nat (j - 1)) a @ drop (nat j) a @ [0])"
proof -
  have start: "copy_array_past v a n j = copy_array_from_past v a n j (j - 1)"
    unfolding copy_array_past_def using assms by (intro copy_array_from_past_skip) auto
  show ?thesis
  proof (cases "j < n")
    case True
    let ?a1 = "a[nat (j - 1) := a ! nat j]"
    from shift_loop_spec[of j ?a1 n] assms obtain a2 i2 where
      s: "shift_loop ?a1 n j = Some (a2, i2)" and l: "length a2 = length a" by auto
    have i2: "n - 1 \<le> i2" using shift_loop_counter[OF s] by simp
    have sp: "shift_loop_past v ?a1 n j = Some (a2, i2)"
      using assms s by (simp add: shift_loop_past_eq)
    have xp: "rd_past v a j = Some (a ! nat j)" using assms True by (intro rd_past_in) simp_all
    have "copy_array_from_past v a n j (j - 1) = Some (a2[nat (n - 1) := 0])"
      using assms True sp l i2 xp
      by (subst copy_array_from_past.simps) (simp add: copy_array_from_past_done)
    moreover have "copy_array a n j = copy_array_from a n j (j - 1)"
      unfolding copy_array_def using assms True by (intro copy_array_from_skip) auto
    moreover have "copy_array_from a n j (j - 1) = Some (a2[nat (n - 1) := 0])"
      using assms True s l i2
      by (subst copy_array_from.simps) (simp add: copy_array_from_past)
    moreover have "copy_array a n j = Some (take (nat (j - 1)) a @ drop (nat j) a @ [0])"
      using assms True by (intro copy_array_spec) auto
    ultimately show ?thesis using start by simp
  next
    case False
    then have jn: "j = n" using assms by simp
    let ?a1 = "a[nat (n - 1) := v]"
    have xp: "rd_past v a n = Some v" using assms by (intro rd_past_end) simp
    have sp: "shift_loop_past v ?a1 n n = Some (?a1, n)"
      by (subst shift_loop_past.simps) simp
    have "copy_array_from_past v a n n (n - 1) = Some (a[nat (n - 1) := 0])"
      using assms jn xp sp
      by (subst copy_array_from_past.simps) (simp add: copy_array_from_past_done)
    moreover have "a[nat (n - 1) := 0] = take (nat (n - 1)) a @ drop (nat n) a @ [0]"
    proof -
      have "nat (n - 1) < length a" "Suc (nat (n - 1)) = nat n" using assms jn by linarith+
      then show ?thesis using assms by (simp add: upd_conv_take_nth_drop)
    qed
    ultimately show ?thesis using start jn by simp
  qed
qed

lemma decode_gene_past_spec:
  assumes i: "0 \<le> i" "i < int (length a)" "i < int (length route)"
    and j: "0 \<le> j" "j < int (length (a ! nat i))" "j < n"
    and k: "a ! nat i ! nat j = k" "1 \<le> k" "k \<le> int (length rem)"
    and r: "length r = nat n"
    and ol: "length rem + nat j = nat n"
  shows "decode_gene_past v n a i j (route[nat i := r], rem @ replicate (nat j) 0) =
     Some (route[nat i := r[nat j := rem ! nat (k - 1)]],
           (take (nat (k - 1)) rem @ drop (nat k) rem) @ replicate (nat (j + 1)) 0)"
proof -
  let ?ol = "rem @ replicate (nat j) 0"
  have len: "length ?ol = nat n" using ol by simp
  have g: "rd2 a i j = Some k" using i j k by (simp add: rd2_def)
  have "length rem \<le> nat n" using ol by linarith
  then have kn: "k \<le> n" using k(2,3) by linarith
  have x: "rd_past v ?ol (k - 1) = Some (rem ! nat (k - 1))"
    using k(2,3) by (auto simp: rd_past_def rd_def nth_append)
  have w: "wr2 (route[nat i := r]) i j (rem ! nat (k - 1)) =
     Some (route[nat i := r[nat j := rem ! nat (k - 1)]])"
    using i j r by (simp add: wr2_def)
  have "copy_array_past v ?ol n k = Some (take (nat (k - 1)) ?ol @ drop (nat k) ?ol @ [0])"
    using k kn len by (intro copy_array_past_spec) auto
  also have "take (nat (k - 1)) ?ol = take (nat (k - 1)) rem" using k by simp
  also have "drop (nat k) ?ol = drop (nat k) rem @ replicate (nat j) 0" using k by simp
  also have "(drop (nat k) rem @ replicate (nat j) 0) @ [0] = drop (nat k) rem @ replicate (nat (j + 1)) 0"
    using j by (simp add: nat_add_distrib replicate_append_same)
  finally have c: "copy_array_past v ?ol n k =
     Some ((take (nat (k - 1)) rem @ drop (nat k) rem) @ replicate (nat (j + 1)) 0)"
    by simp
  show ?thesis by (simp add: decode_gene_past_def g x w c)
qed


lemma decode_row_past_spec:
  assumes i: "0 \<le> i" "i < int (length a)" "i < int (length route)"
    and ok: "chromosome_ok n (a ! nat i)" and n: "1 \<le> n"
    and r0: "length (route ! nat i) = nat n" and ol: "length ol = nat n"
  shows "\<exists>ol'. decode_row_past v n a i (route, ol) =
      Some (route[nat i := select_labels (a ! nat i) [1..n]], ol') \<and> length ol' = nat n"
proof -
  let ?g = "a ! nat i"
  let ?goal = "select_labels ?g [1..n]"
  have lg: "int (length ?g) = n" and rng: "genes_in_range n 0 ?g"
    using ok by (simp_all add: chromosome_ok_def)
  let ?I = "\<lambda>j t. \<exists>r rem. t = (route[nat i := r], rem @ replicate (nat j) 0) \<and>
      length r = nat n \<and> length rem + nat j = nat n \<and>
      take (nat j) r @ select_labels (drop (nat j) ?g) rem = ?goal"
  have "\<exists>t. for_loop 0 n (decode_gene_past v n a i) (route, [1..n]) = Some t \<and> ?I n t"
  proof (rule for_loop_inv[where I = ?I])
    show "?I 0 (route, [1..n])"
      using r0 n by (intro exI[of _ "route ! nat i"] exI[of _ "[1..n]"]) simp
    show "0 \<le> n" using n by simp
  next
    fix j t assume j: "0 \<le> j" "j < n" and I: "?I j t"
    then obtain r rem where t: "t = (route[nat i := r], rem @ replicate (nat j) 0)"
      and lr: "length r = nat n" and lrem: "length rem + nat j = nat n"
      and eq: "take (nat j) r @ select_labels (drop (nat j) ?g) rem = ?goal"
      by blast
    define k where "k = ?g ! nat j"
    have jl: "nat j < length ?g" using j lg by linarith
    from genes_in_range_nth[OF rng jl] have k1: "1 \<le> k" and k2: "k \<le> n - j"
      using j by (simp_all add: k_def)
    have k3: "k \<le> int (length rem)" using k2 lrem j by linarith
    let ?r' = "r[nat j := rem ! nat (k - 1)]"
    let ?rem' = "take (nat (k - 1)) rem @ drop (nat k) rem"
    have step: "decode_gene_past v n a i j t = Some (route[nat i := ?r'], ?rem' @ replicate (nat (j + 1)) 0)"
      unfolding t using i j lg k1 k3 lr lrem
      by (intro decode_gene_past_spec) (simp_all add: k_def)
    have "length ?rem' + nat (j + 1) = nat n"
      using k1 k3 lrem j by (simp add: nat_add_distrib)
    moreover have "take (nat (j + 1)) ?r' @ select_labels (drop (nat (j + 1)) ?g) ?rem' = ?goal"
    proof -
      have d: "drop (nat j) ?g = k # drop (nat (j + 1)) ?g"
        using jl j by (simp add: k_def Cons_nth_drop_Suc nat_add_distrib)
      have tk: "take (nat (j + 1)) ?r' = take (nat j) r @ [rem ! nat (k - 1)]"
        using j lr by (simp add: nat_add_distrib take_Suc_conv_app_nth)
      show ?thesis using eq by (simp add: d tk)
    qed
    ultimately have "?I (j + 1) (route[nat i := ?r'], ?rem' @ replicate (nat (j + 1)) 0)"
      using lr by (intro exI[of _ ?r'] exI[of _ ?rem']) simp
    with step show "\<exists>t'. decode_gene_past v n a i j t = Some t' \<and> ?I (j + 1) t'" by blast
  qed
  then obtain r rem where
    run: "for_loop 0 n (decode_gene_past v n a i) (route, [1..n]) = Some (route[nat i := r], rem @ replicate (nat n) 0)"
    and lr: "length r = nat n" and lrem: "length rem + nat n = nat n"
    and eq: "take (nat n) r @ select_labels (drop (nat n) ?g) rem = ?goal"
    by blast
  have "r = ?goal" using eq lr lg by simp
  moreover have "fill_order_list n ol = Some [1..n]"
    using n ol by (intro fill_order_list_spec) auto
  ultimately show ?thesis using run lrem by (simp add: decode_row_past_def)
qed


lemma decode_rows_past_prefix:
  assumes n: "1 \<le> n"
    and shape: "int (length a) = POPULATION" "int (length route) = POPULATION"
      "\<forall>r < length route. length (route ! r) = nat n"
    and m: "0 \<le> m" "m \<le> POPULATION"
    and ok: "\<forall>r < nat m. chromosome_ok n (a ! r)"
    and ol0: "length ol0 = nat n"
  shows "\<exists>rt ol. for_loop 0 m (decode_row_past v n a) (route, ol0) = Some (rt, ol) \<and>
     length rt = length a \<and> length ol = nat n \<and>
     (\<forall>r < length a. rt ! r = (if r < nat m then select_labels (a ! r) [1..n] else route ! r))"
proof -
  let ?dec = "\<lambda>c. select_labels c [1..n]"
  let ?I = "\<lambda>i t. \<exists>rt (ol :: int list). t = (rt, ol) \<and> length rt = length a \<and> length ol = nat n \<and>
     (\<forall>r < length a. rt ! r = (if r < nat i then ?dec (a ! r) else route ! r))"
  have "\<exists>t. for_loop 0 m (decode_row_past v n a) (route, ol0) = Some t \<and> ?I m t"
  proof (rule for_loop_inv[where I = ?I])
    show "?I 0 (route, ol0)" using shape ol0 by simp
    show "0 \<le> m" by fact
  next
    fix i t assume i: "0 \<le> i" "i < m" and I: "?I i t"
    then obtain rt ol where t: "t = (rt, ol)" and l: "length rt = length a" "length ol = nat n"
      and v: "\<forall>r < length a. rt ! r = (if r < nat i then ?dec (a ! r) else route ! r)"
      by blast
    have il: "nat i < length a" "nat i < nat m" using i m shape by linarith+
    have "\<exists>ol'. decode_row_past v n a i (rt, ol) = Some (rt[nat i := ?dec (a ! nat i)], ol') \<and>
       length ol' = nat n"
    proof (rule decode_row_past_spec)
      show "0 \<le> i" "i < int (length a)" "i < int (length rt)" using i m shape l by simp_all
      show "chromosome_ok n (a ! nat i)" using ok il by simp
      show "1 \<le> n" by fact
      show "length (rt ! nat i) = nat n" using v il shape by simp
      show "length ol = nat n" by fact
    qed
    then obtain ol' where d: "decode_row_past v n a i t = Some (rt[nat i := ?dec (a ! nat i)], ol')"
      and l': "length ol' = nat n" using t by blast
    have "?I (i + 1) (rt[nat i := ?dec (a ! nat i)], ol')"
    proof (intro exI conjI allI impI)
      show "(rt[nat i := ?dec (a ! nat i)], ol') = (rt[nat i := ?dec (a ! nat i)], ol')" ..
      show "length (rt[nat i := ?dec (a ! nat i)]) = length a" using l by simp
      show "length ol' = nat n" by fact
      fix r assume r: "r < length a"
      have "nat (i + 1) = Suc (nat i)" using i by linarith
      then show "rt[nat i := ?dec (a ! nat i)] ! r =
          (if r < nat (i + 1) then ?dec (a ! r) else route ! r)"
        using v[rule_format, OF r] r l
        by (cases "r = nat i") (simp_all add: less_Suc_eq)
    qed
    with d show "\<exists>t'. decode_row_past v n a i t = Some t' \<and> ?I (i + 1) t'" by blast
  qed
  then show ?thesis by blast
qed

lemma order_representation_past_rows:
  assumes n: "1 \<le> n"
    and shape: "int (length a) = POPULATION" "int (length route) = POPULATION"
      "\<forall>r < length route. length (route ! r) = nat n"
    and ok: "\<forall>r < length a. chromosome_ok n (a ! r)"
  shows "order_representation_past v n a route = Some (map (\<lambda>c. select_labels c [1..n]) a)"
proof -
  let ?dec = "\<lambda>c. select_labels c [1..n]"
  have la: "nat POPULATION = length a" using shape by linarith
  from decode_rows_past_prefix[OF n shape, where m = POPULATION and ?ol0.0 = "replicate (nat n) 0"
      and v = v] ok la
  obtain rt ol where
    run: "for_loop 0 POPULATION (decode_row_past v n a) (route, replicate (nat n) 0) = Some (rt, ol)"
    and l: "length rt = length a"
    and v: "\<forall>r < length a. rt ! r = (if r < nat POPULATION then ?dec (a ! r) else route ! r)"
    by (auto simp: POPULATION_def)
  have "rt = map ?dec a"
  proof (rule nth_equalityI)
    show "length rt = length (map ?dec a)" using l by simp
    fix r assume "r < length rt"
    then have r: "r < length a" using l by simp
    then show "rt ! r = map ?dec a ! r" using v[rule_format, OF r] la by simp
  qed
  with run show ?thesis by (simp add: order_representation_past_def)
qed



section \<open>Two-point crossover: what the loops compute\<close>

lemma rd2_Some:
  "0 \<le> i \<Longrightarrow> i < int (length a) \<Longrightarrow> 0 \<le> j \<Longrightarrow> j < int (length (a ! nat i)) \<Longrightarrow>
   rd2 a i j = Some (a ! nat i ! nat j)"
  by (simp add: rd2_def)

lemma wr2_Some:
  "0 \<le> i \<Longrightarrow> i < int (length a) \<Longrightarrow> 0 \<le> j \<Longrightarrow> j < int (length (a ! nat i)) \<Longrightarrow>
   wr2 a i j v = Some (a[nat i := (a ! nat i)[nat j := v]])"
  by (simp add: wr2_def)

lemma well_shaped_length: "well_shaped n a \<Longrightarrow> length a = nat POPULATION"
  by (auto simp: well_shaped_def)

lemma well_shaped_row: "well_shaped n a \<Longrightarrow> r < length a \<Longrightarrow> int (length (a ! r)) = n"
  by (simp add: well_shaped_def list_all_length)

lemma well_shaped_update:
  "well_shaped n a \<Longrightarrow> int (length row) = n \<Longrightarrow> well_shaped n (a[r := row])"
proof -
  assume a: "well_shaped n a" and row: "int (length row) = n"
  have "int (length (a[r := row] ! q)) = n" if "q < length a" for q
    using a row that by (cases "q = r") (simp_all add: well_shaped_def list_all_length)
  with a show ?thesis by (simp add: well_shaped_def list_all_length)
qed

text \<open>Writing one gene into row \<open>i\<close> and one into row \<open>i + 1\<close>, as both loop bodies do.\<close>

lemma put_pair:
  assumes a: "well_shaped n a" and i: "0 \<le> i" "i + 1 < POPULATION" and j: "0 \<le> j" "j < n"
  shows "\<exists>a'. (do { a1 \<leftarrow> wr2 a i j x; wr2 a1 (i + 1) j y }) = Some a' \<and> well_shaped n a' \<and>
     (\<forall>r < length a. \<forall>c < nat n. a' ! r ! c =
        (if c = nat j \<and> r = nat i then x else if c = nat j \<and> r = nat (i + 1) then y
         else a ! r ! c))"
proof -
  have la: "length a = nat POPULATION" using a by (rule well_shaped_length)
  have il: "nat i < length a" "nat (i + 1) < length a" "nat (i + 1) \<noteq> nat i"
    using i la by simp_all
  have rows: "int (length (a ! nat i)) = n" "int (length (a ! nat (i + 1))) = n"
    using a il by (simp_all add: well_shaped_row)
  let ?a1 = "a[nat i := (a ! nat i)[nat j := x]]"
  let ?a2 = "?a1[nat (i + 1) := (a ! nat (i + 1))[nat j := y]]"
  have w1: "wr2 a i j x = Some ?a1" using i il j rows by (intro wr2_Some) simp_all
  have "wr2 ?a1 (i + 1) j y = Some (?a1[nat (i + 1) := (?a1 ! nat (i + 1))[nat j := y]])"
    using i il j rows by (intro wr2_Some) simp_all
  then have w2: "wr2 ?a1 (i + 1) j y = Some ?a2" using il by simp
  have ws: "well_shaped n ?a2" using a rows by (intro well_shaped_update) simp_all
  have "?a2 ! r ! c = (if c = nat j \<and> r = nat i then x else if c = nat j \<and> r = nat (i + 1) then y
         else a ! r ! c)" if "r < length a" "c < nat n" for r c
  proof -
    have "c < length (a ! nat i)" "c < length (a ! nat (i + 1))" using rows that by linarith+
    then show ?thesis using that il by (simp add: nth_list_update)
  qed
  with w1 w2 ws show ?thesis by simp
qed


lemma keep_gene_spec:
  assumes a: "well_shaped n a" and b: "well_shaped n b"
    and i: "0 \<le> i" "i + 1 < POPULATION" and j: "0 \<le> j" "j < n"
  shows "\<exists>a'. keep_gene b i j a = Some a' \<and> well_shaped n a' \<and>
     (\<forall>r < length a. \<forall>c < nat n. a' ! r ! c =
        (if c = nat j \<and> r = nat i then b ! nat i ! c
         else if c = nat j \<and> r = nat (i + 1) then b ! nat (i + 1) ! c else a ! r ! c))"
proof -
  have lb: "length b = nat POPULATION" using b by (rule well_shaped_length)
  have il: "nat i < length b" "nat (i + 1) < length b" using i lb by simp_all
  have rows: "int (length (b ! nat i)) = n" "int (length (b ! nat (i + 1))) = n"
    using b il by (simp_all add: well_shaped_row)
  have x: "rd2 b i j = Some (b ! nat i ! nat j)"
    using i il j rows by (intro rd2_Some) simp_all
  have y: "rd2 b (i + 1) j = Some (b ! nat (i + 1) ! nat j)"
    using i il j rows by (intro rd2_Some) simp_all
  from put_pair[OF a i j, of "b ! nat i ! nat j" "b ! nat (i + 1) ! nat j"]
  obtain a' where
    w: "(do { a1 \<leftarrow> wr2 a i j (b ! nat i ! nat j); wr2 a1 (i + 1) j (b ! nat (i + 1) ! nat j) }) = Some a'"
    and ws: "well_shaped n a'"
    and v: "\<forall>r < length a. \<forall>c < nat n. a' ! r ! c =
        (if c = nat j \<and> r = nat i then b ! nat i ! nat j
         else if c = nat j \<and> r = nat (i + 1) then b ! nat (i + 1) ! nat j else a ! r ! c)"
    by blast
  obtain a1 where a1: "wr2 a i j (b ! nat i ! nat j) = Some a1"
    and a2: "wr2 a1 (i + 1) j (b ! nat (i + 1) ! nat j) = Some a'"
    using w by (auto simp: bind_eq_Some_conv)
  have "keep_gene b i j a = Some a'"
    by (simp add: keep_gene_def x y a1 a2)
  moreover have "\<forall>r < length a. \<forall>c < nat n. a' ! r ! c =
        (if c = nat j \<and> r = nat i then b ! nat i ! c
         else if c = nat j \<and> r = nat (i + 1) then b ! nat (i + 1) ! c else a ! r ! c)"
    using v by auto
  ultimately show ?thesis using ws by blast
qed

lemma swap_gene_spec:
  assumes a: "well_shaped n a" and b: "well_shaped n b"
    and i: "0 \<le> i" "i + 1 < POPULATION" and j: "0 \<le> j" "j < n"
  shows "\<exists>a'. swap_gene b i j a = Some a' \<and> well_shaped n a' \<and>
     (\<forall>r < length a. \<forall>c < nat n. a' ! r ! c =
        (if c = nat j \<and> r = nat i then b ! nat (i + 1) ! c
         else if c = nat j \<and> r = nat (i + 1) then b ! nat i ! c else a ! r ! c))"
proof -
  have lb: "length b = nat POPULATION" using b by (rule well_shaped_length)
  have il: "nat i < length b" "nat (i + 1) < length b" using i lb by simp_all
  have rows: "int (length (b ! nat i)) = n" "int (length (b ! nat (i + 1))) = n"
    using b il by (simp_all add: well_shaped_row)
  have x: "rd2 b (i + 1) j = Some (b ! nat (i + 1) ! nat j)"
    using i il j rows by (intro rd2_Some) simp_all
  have y: "rd2 b i j = Some (b ! nat i ! nat j)"
    using i il j rows by (intro rd2_Some) simp_all
  from put_pair[OF a i j, of "b ! nat (i + 1) ! nat j" "b ! nat i ! nat j"]
  obtain a' where
    w: "(do { a1 \<leftarrow> wr2 a i j (b ! nat (i + 1) ! nat j); wr2 a1 (i + 1) j (b ! nat i ! nat j) }) = Some a'"
    and ws: "well_shaped n a'"
    and v: "\<forall>r < length a. \<forall>c < nat n. a' ! r ! c =
        (if c = nat j \<and> r = nat i then b ! nat (i + 1) ! nat j
         else if c = nat j \<and> r = nat (i + 1) then b ! nat i ! nat j else a ! r ! c)"
    by blast
  obtain a1 where a1: "wr2 a i j (b ! nat (i + 1) ! nat j) = Some a1"
    and a2: "wr2 a1 (i + 1) j (b ! nat i ! nat j) = Some a'"
    using w by (auto simp: bind_eq_Some_conv)
  have "swap_gene b i j a = Some a'"
    by (simp add: swap_gene_def x y a1 a2)
  moreover have "\<forall>r < length a. \<forall>c < nat n. a' ! r ! c =
        (if c = nat j \<and> r = nat i then b ! nat (i + 1) ! c
         else if c = nat j \<and> r = nat (i + 1) then b ! nat i ! c else a ! r ! c)"
    using v by auto
  ultimately show ?thesis using ws by blast
qed

text \<open>A loop over the gene positions \<open>[lo, hi)\<close> whose body writes column \<open>j\<close> of the pair.\<close>

lemma band_loop:
  assumes a: "well_shaped n a" and bounds: "0 \<le> lo" "lo \<le> hi" "hi \<le> n"
    and body: "\<And>j t. lo \<le> j \<Longrightarrow> j < hi \<Longrightarrow> well_shaped n t \<Longrightarrow>
       \<exists>t'. f j t = Some t' \<and> well_shaped n t' \<and>
         (\<forall>r < length t. \<forall>c < nat n. t' ! r ! c =
            (if c = nat j \<and> r = p then s1 c else if c = nat j \<and> r = q then s2 c else t ! r ! c))"
  shows "\<exists>a'. for_loop lo hi f a = Some a' \<and> well_shaped n a' \<and>
     (\<forall>r < length a. \<forall>c < nat n. a' ! r ! c =
        (if nat lo \<le> c \<and> c < nat hi \<and> r = p then s1 c
         else if nat lo \<le> c \<and> c < nat hi \<and> r = q then s2 c else a ! r ! c))"
proof -
  let ?I = "\<lambda>k t. well_shaped n t \<and>
     (\<forall>r < length a. \<forall>c < nat n. t ! r ! c =
        (if nat lo \<le> c \<and> c < nat k \<and> r = p then s1 c
         else if nat lo \<le> c \<and> c < nat k \<and> r = q then s2 c else a ! r ! c))"
  have "\<exists>t. for_loop lo hi f a = Some t \<and> ?I hi t"
  proof (rule for_loop_inv[where I = ?I])
    show "?I lo a" using a by simp
    show "lo \<le> hi" by fact
  next
    fix k t assume k: "lo \<le> k" "k < hi" and I: "?I k t"
    then have wt: "well_shaped n t" by simp
    have lt: "length t = length a" using wt a by (simp add: well_shaped_length)
    from body[OF k wt] obtain t' where
      f: "f k t = Some t'" and wt': "well_shaped n t'"
      and v: "\<forall>r < length t. \<forall>c < nat n. t' ! r ! c =
            (if c = nat k \<and> r = p then s1 c else if c = nat k \<and> r = q then s2 c else t ! r ! c)"
      by blast
    have "t' ! r ! c =
        (if nat lo \<le> c \<and> c < nat (k + 1) \<and> r = p then s1 c
         else if nat lo \<le> c \<and> c < nat (k + 1) \<and> r = q then s2 c else a ! r ! c)"
      if rc: "r < length a" "c < nat n" for r c
    proof -
      have e: "c < nat (k + 1) \<longleftrightarrow> c < nat k \<or> c = nat k" using k bounds by linarith
      have lo: "nat lo \<le> nat k" using k bounds by linarith
      have "t' ! r ! c =
          (if c = nat k \<and> r = p then s1 c else if c = nat k \<and> r = q then s2 c else t ! r ! c)"
        using v rc lt by simp
      moreover have "t ! r ! c =
        (if nat lo \<le> c \<and> c < nat k \<and> r = p then s1 c
         else if nat lo \<le> c \<and> c < nat k \<and> r = q then s2 c else a ! r ! c)"
        using I rc by simp
      ultimately show ?thesis using e lo by auto
    qed
    with f wt' show "\<exists>t'. f k t = Some t' \<and> ?I (k + 1) t'" by blast
  qed
  then show ?thesis by blast
qed


lemma crossover_point_bounds:
  assumes "1 \<le> n"
  shows "0 \<le> crossover_point n"
    and "c_div (crossover_point n) 2 = crossover_point n div 2"
    and "0 \<le> crossover_point n div 2"
    and "crossover_point n + crossover_point n div 2 + 1 \<le> n"
proof -
  have p: "crossover_point n = (if n mod 2 = 0 then n div 2 - 1 else (n + 1) div 2 - 1)"
    using assms by (simp add: crossover_point_def)
  show p0: "0 \<le> crossover_point n" using assms unfolding p by (auto; presburger)
  then show "c_div (crossover_point n) 2 = crossover_point n div 2" by simp
  show "0 \<le> crossover_point n div 2" using p0 by simp
  have "2 * crossover_point n \<le> n - 1" unfolding p by (auto; presburger)
  moreover have "2 * (crossover_point n div 2) \<le> crossover_point n" by presburger
  ultimately show "crossover_point n + crossover_point n div 2 + 1 \<le> n"
    using assms by linarith
qed

lemma cross_pair_spec:
  assumes a: "well_shaped n a" and b: "well_shaped n b" and n: "1 \<le> n"
    and i: "0 \<le> i" "i + 1 < POPULATION"
  shows "\<exists>a'. cross_pair n b i a = Some a' \<and> well_shaped n a' \<and>
     (\<forall>r < length a. \<forall>c < nat n. a' ! r ! c =
        (if r = nat i then (if middle_band n (int c) then b ! nat (i + 1) ! c else b ! nat i ! c)
         else if r = nat (i + 1) then (if middle_band n (int c) then b ! nat i ! c else b ! nat (i + 1) ! c)
         else a ! r ! c))"
proof -
  define p where "p = crossover_point n"
  define h where "h = p div 2"
  note pb = crossover_point_bounds[OF n, folded p_def]
  have h: "c_div p 2 = h" "0 \<le> h" "p + h + 1 \<le> n" "0 \<le> p"
    using pb by (simp_all add: h_def)
  have mid: "middle_band n j \<longleftrightarrow> h < j \<and> j \<le> p + h" for j
    using h by (simp add: middle_band_def p_def[symmetric] Let_def)
  have ne: "nat (i + 1) \<noteq> nat i" using i by simp
  from band_loop[where f = "keep_gene b i" and lo = 0 and hi = "h + 1" and n = n and a = a
      and p = "nat i" and q = "nat (i + 1)" and ?s1.0 = "\<lambda>c. b ! nat i ! c" and ?s2.0 = "\<lambda>c. b ! nat (i + 1) ! c"]
  obtain a1 where r1: "for_loop 0 (h + 1) (keep_gene b i) a = Some a1" and w1: "well_shaped n a1"
    and v1: "\<forall>r < length a. \<forall>c < nat n. a1 ! r ! c =
        (if nat 0 \<le> c \<and> c < nat (h + 1) \<and> r = nat i then b ! nat i ! c
         else if nat 0 \<le> c \<and> c < nat (h + 1) \<and> r = nat (i + 1) then b ! nat (i + 1) ! c else a ! r ! c)"
    using a b i h keep_gene_spec[of n _ b i] by (auto simp: well_shaped_length)
  from band_loop[where f = "swap_gene b i" and lo = "h + 1" and hi = "p + h + 1" and n = n and a = a1
      and p = "nat i" and q = "nat (i + 1)" and ?s1.0 = "\<lambda>c. b ! nat (i + 1) ! c" and ?s2.0 = "\<lambda>c. b ! nat i ! c"]
  obtain a2 where r2: "for_loop (h + 1) (p + h + 1) (swap_gene b i) a1 = Some a2" and w2: "well_shaped n a2"
    and v2: "\<forall>r < length a1. \<forall>c < nat n. a2 ! r ! c =
        (if nat (h + 1) \<le> c \<and> c < nat (p + h + 1) \<and> r = nat i then b ! nat (i + 1) ! c
         else if nat (h + 1) \<le> c \<and> c < nat (p + h + 1) \<and> r = nat (i + 1) then b ! nat i ! c else a1 ! r ! c)"
    using w1 b i h swap_gene_spec[of n _ b i] by (auto simp: well_shaped_length)
  from band_loop[where f = "keep_gene b i" and lo = "p + h + 1" and hi = n and n = n and a = a2
      and p = "nat i" and q = "nat (i + 1)" and ?s1.0 = "\<lambda>c. b ! nat i ! c" and ?s2.0 = "\<lambda>c. b ! nat (i + 1) ! c"]
  obtain a3 where r3: "for_loop (p + h + 1) n (keep_gene b i) a2 = Some a3" and w3: "well_shaped n a3"
    and v3: "\<forall>r < length a2. \<forall>c < nat n. a3 ! r ! c =
        (if nat (p + h + 1) \<le> c \<and> c < nat n \<and> r = nat i then b ! nat i ! c
         else if nat (p + h + 1) \<le> c \<and> c < nat n \<and> r = nat (i + 1) then b ! nat (i + 1) ! c else a2 ! r ! c)"
    using w2 b i h keep_gene_spec[of n _ b i] by (auto simp: well_shaped_length)
  have run: "cross_pair n b i a = Some a3"
    by (simp add: cross_pair_def Let_def p_def[symmetric] h r1 r2 r3)
  have len: "length a1 = length a" "length a2 = length a"
    using a w1 w2 by (simp_all add: well_shaped_length)
  have "a3 ! r ! c =
        (if r = nat i then (if middle_band n (int c) then b ! nat (i + 1) ! c else b ! nat i ! c)
         else if r = nat (i + 1) then (if middle_band n (int c) then b ! nat i ! c else b ! nat (i + 1) ! c)
         else a ! r ! c)" if rc: "r < length a" "c < nat n" for r c
  proof -
    have e1: "c < nat (h + 1) \<longleftrightarrow> int c \<le> h" using h by linarith
    have e2: "nat (h + 1) \<le> c \<longleftrightarrow> h < int c" using h by linarith
    have e3: "c < nat (p + h + 1) \<longleftrightarrow> int c \<le> p + h" using h by linarith
    have e4: "nat (p + h + 1) \<le> c \<longleftrightarrow> p + h < int c" using h by linarith
    have s1: "a1 ! r ! c = (if int c \<le> h \<and> r = nat i then b ! nat i ! c
         else if int c \<le> h \<and> r = nat (i + 1) then b ! nat (i + 1) ! c else a ! r ! c)"
      using v1 rc e1 by simp
    have s2: "a2 ! r ! c = (if h < int c \<and> int c \<le> p + h \<and> r = nat i then b ! nat (i + 1) ! c
         else if h < int c \<and> int c \<le> p + h \<and> r = nat (i + 1) then b ! nat i ! c else a1 ! r ! c)"
      using v2 rc len e2 e3 by simp
    have s3: "a3 ! r ! c = (if p + h < int c \<and> r = nat i then b ! nat i ! c
         else if p + h < int c \<and> r = nat (i + 1) then b ! nat (i + 1) ! c else a2 ! r ! c)"
      using v3 rc len e4 by simp
    show ?thesis unfolding s3 s2 s1 mid using ne h by auto
  qed
  with run w3 show ?thesis by blast
qed


lemma for_loop2_step:
  "i < hi \<Longrightarrow> for_loop2 i hi body s =
     (case body i s of None \<Rightarrow> None | Some s' \<Rightarrow> for_loop2 (i + 2) hi body s')"
  by (subst for_loop2.simps) simp

lemma for_loop2_done: "hi \<le> i \<Longrightarrow> for_loop2 i hi body s = Some s"
  by (subst for_loop2.simps) simp

lemma for_loop2_inv:
  assumes "I i s"
    and step: "\<And>k t. i \<le> k \<Longrightarrow> k < hi \<Longrightarrow> I k t \<Longrightarrow> \<exists>t'. body k t = Some t' \<and> I (k + 2) t'"
  shows "\<exists>t k. for_loop2 i hi body s = Some t \<and> I k t \<and> hi \<le> k \<and> (k = i \<or> k \<le> hi + 1)"
  using assms
proof (induction "nat (hi - i)" arbitrary: i s rule: less_induct)
  case less
  show ?case
  proof (cases "i < hi")
    case False
    then show ?thesis using less.prems(1) by (auto simp: for_loop2_done)
  next
    case True
    from less.prems(2)[OF order_refl True less.prems(1)] obtain t' where
      t': "body i s = Some t'" "I (i + 2) t'" by blast
    have "\<exists>t k. for_loop2 (i + 2) hi body t' = Some t \<and> I k t \<and> hi \<le> k \<and> (k = i + 2 \<or> k \<le> hi + 1)"
    proof (rule less.hyps)
      show "nat (hi - (i + 2)) < nat (hi - i)" using True by simp
      show "I (i + 2) t'" by fact
      show "\<And>k t. i + 2 \<le> k \<Longrightarrow> k < hi \<Longrightarrow> I k t \<Longrightarrow> \<exists>t'. body k t = Some t' \<and> I (k + 2) t'"
        using less.prems(2) by simp
    qed
    then obtain t k where "for_loop2 (i + 2) hi body t' = Some t" "I k t" "hi \<le> k"
      "k = i + 2 \<or> k \<le> hi + 1" by blast
    moreover have "k \<le> hi + 1" using calculation(4) True by linarith
    ultimately show ?thesis using t' True by (auto simp: for_loop2_step)
  qed
qed


section \<open>Ranking selection: what the loops compute\<close>

lemma copy_fitness:
  assumes "int (length a) = POPULATION"
  shows "for_loop 0 POPULATION (\<lambda>i d. do { x \<leftarrow> rd a i; wr d i x }) (replicate (nat POPULATION) 0) = Some a"
proof -
  let ?body = "\<lambda>i d. do { x \<leftarrow> rd a i; wr d i x }"
  let ?I = "\<lambda>k d. length d = length a \<and> (\<forall>p < nat k. d ! p = a ! p)"
  have "\<exists>t. for_loop 0 POPULATION ?body (replicate (nat POPULATION) 0) = Some t \<and> ?I POPULATION t"
  proof (rule for_loop_inv[where I = ?I])
    show "?I 0 (replicate (nat POPULATION) 0)" using assms by simp
    show "0 \<le> POPULATION" by (simp add: POPULATION_def)
  next
    fix k t assume k: "0 \<le> k" "k < POPULATION" and I: "?I k t"
    have "?body k t = Some (t[nat k := a ! nat k])" using k I assms by simp
    moreover have "?I (k + 1) (t[nat k := a ! nat k])"
    proof (intro conjI allI impI)
      show "length (t[nat k := a ! nat k]) = length a" using I by simp
      fix p assume "p < nat (k + 1)"
      then have "p < nat k \<or> p = nat k" using k by linarith
      then show "t[nat k := a ! nat k] ! p = a ! p"
        using I k assms by (auto simp: nth_list_update)
    qed
    ultimately show "\<exists>t'. ?body k t = Some t' \<and> ?I (k + 1) t'" by blast
  qed
  then obtain t where t: "for_loop 0 POPULATION ?body (replicate (nat POPULATION) 0) = Some t"
    and l: "length t = length a" and v: "\<forall>p < nat POPULATION. t ! p = a ! p" by blast
  have "t = a"
  proof (rule nth_equalityI)
    show "length t = length a" by fact
    fix p assume "p < length t"
    then show "t ! p = a ! p" using v l assms by simp
  qed
  with t show ?thesis by simp
qed

lemma min_arr_spec:
  assumes "int (length d) = POPULATION"
  shows "\<exists>m. min_arr d = Some m \<and> m \<in> set d \<and> (\<forall>x \<in> set d. m \<le> x)"
proof -
  let ?body = "\<lambda>i m. do { x \<leftarrow> rd d i; Some (if m > x then x else m) }"
  let ?I = "\<lambda>k m. m \<in> set d \<and> (\<forall>p < nat k. m \<le> d ! p)"
  have last: "rd d (POPULATION - 1) = Some (d ! nat (POPULATION - 1))"
    using assms by (simp add: POPULATION_def)
  have "\<exists>m. for_loop 0 POPULATION ?body (d ! nat (POPULATION - 1)) = Some m \<and> ?I POPULATION m"
  proof (rule for_loop_inv[where I = ?I])
    show "?I 0 (d ! nat (POPULATION - 1))" using assms by (simp add: POPULATION_def)
    show "0 \<le> POPULATION" by (simp add: POPULATION_def)
  next
    fix k m assume k: "0 \<le> k" "k < POPULATION" and I: "?I k m"
    let ?m' = "if m > d ! nat k then d ! nat k else m"
    have kl: "nat k < length d" using k assms by linarith
    have "?body k m = Some ?m'" using k assms by simp
    moreover have "?I (k + 1) ?m'"
    proof (intro conjI allI impI)
      show "?m' \<in> set d" using I kl by simp
      fix p assume "p < nat (k + 1)"
      then have "p < nat k \<or> p = nat k" using k by linarith
      then show "?m' \<le> d ! p" using I by (auto dest: spec[of _ p])
    qed
    ultimately show "\<exists>t'. ?body k m = Some t' \<and> ?I (k + 1) t'" by blast
  qed
  then obtain m where m: "for_loop 0 POPULATION ?body (d ! nat (POPULATION - 1)) = Some m"
    and i: "m \<in> set d" and v: "\<forall>p < nat POPULATION. m \<le> d ! p" by blast
  have "\<forall>x \<in> set d. m \<le> x"
    using v assms by (auto simp: in_set_conv_nth)
  with m i last show ?thesis by (simp add: min_arr_def)
qed

lemma last_index_of_spec:
  assumes len: "int (length d) = POPULATION" and ex: "m \<in> set d"
  shows "\<exists>idx. last_index_of d m idx0 = Some idx \<and> 0 \<le> idx \<and> idx < POPULATION \<and>
     d ! nat idx = m \<and> (\<forall>j < length d. nat idx < j \<longrightarrow> d ! j \<noteq> m)"
proof -
  let ?body = "\<lambda>j idx. do { x \<leftarrow> rd d j; Some (if x = m then j else idx) }"
  let ?I = "\<lambda>k idx. (\<forall>j < nat k. d ! j \<noteq> m) \<and> idx = idx0 \<or>
     0 \<le> idx \<and> idx < k \<and> d ! nat idx = m \<and> (\<forall>j < nat k. nat idx < j \<longrightarrow> d ! j \<noteq> m)"
  have "\<exists>idx. for_loop 0 POPULATION ?body idx0 = Some idx \<and> ?I POPULATION idx"
  proof (rule for_loop_inv[where I = ?I])
    show "?I 0 idx0" by simp
    show "0 \<le> POPULATION" by (simp add: POPULATION_def)
  next
    fix k idx assume k: "0 \<le> k" "k < POPULATION" and I: "?I k idx"
    let ?idx' = "if d ! nat k = m then k else idx"
    have b: "?body k idx = Some ?idx'" using k len by simp
    have e: "j < nat (k + 1) \<longleftrightarrow> j < nat k \<or> j = nat k" for j using k by linarith
    have "?I (k + 1) ?idx'"
    proof (cases "d ! nat k = m")
      case True
      then show ?thesis using k by (auto simp: e)
    next
      case False
      from I show ?thesis
      proof
        assume "(\<forall>j < nat k. d ! j \<noteq> m) \<and> idx = idx0"
        then show ?thesis using False by (auto simp: e)
      next
        assume "0 \<le> idx \<and> idx < k \<and> d ! nat idx = m \<and> (\<forall>j < nat k. nat idx < j \<longrightarrow> d ! j \<noteq> m)"
        then show ?thesis using False by (auto simp: e)
      qed
    qed
    with b show "\<exists>t'. ?body k idx = Some t' \<and> ?I (k + 1) t'" by blast
  qed
  then obtain idx where r: "for_loop 0 POPULATION ?body idx0 = Some idx" and I: "?I POPULATION idx"
    by blast
  have nl: "nat POPULATION = length d" using len by linarith
  from ex obtain j where "j < length d" "d ! j = m" by (auto simp: in_set_conv_nth)
  then have "\<not> (\<forall>j < nat POPULATION. d ! j \<noteq> m)" unfolding nl by blast
  with I have "0 \<le> idx \<and> idx < POPULATION \<and> d ! nat idx = m \<and>
      (\<forall>j < nat POPULATION. nat idx < j \<longrightarrow> d ! j \<noteq> m)" by blast
  then show ?thesis using r nl by (simp add: last_index_of_def)
qed


lemma copy_row_spec:
  assumes b: "well_shaped n b" and c: "well_shaped n c" and n: "0 \<le> n"
    and idx: "0 \<le> idx" "idx < POPULATION" and i: "0 \<le> i" "i < POPULATION"
  shows "copy_row n b idx i c = Some (c[nat i := b ! nat idx])"
proof -
  let ?body = "\<lambda>j c. do { x \<leftarrow> rd2 b idx j; wr2 c i j x }"
  have lb: "length b = nat POPULATION" and lc: "length c = nat POPULATION"
    using b c by (simp_all add: well_shaped_length)
  have brow: "int (length (b ! nat idx)) = n"
    using b idx lb by (intro well_shaped_row) simp_all
  have step: "\<exists>t'. ?body j t = Some t' \<and> well_shaped n t' \<and>
         (\<forall>r < length t. \<forall>col < nat n. t' ! r ! col =
            (if col = nat j \<and> r = nat i then b ! nat idx ! col
             else if col = nat j \<and> r = nat i then b ! nat idx ! col else t ! r ! col))"
    if j: "0 \<le> j" "j < n" and t: "well_shaped n t" for j t
  proof -
    have lt: "length t = nat POPULATION" using t by (rule well_shaped_length)
    have trow: "int (length (t ! nat i)) = n" using t i lt by (intro well_shaped_row) simp_all
    have x: "rd2 b idx j = Some (b ! nat idx ! nat j)"
      using idx lb j brow by (intro rd2_Some) simp_all
    have w: "wr2 t i j (b ! nat idx ! nat j) = Some (t[nat i := (t ! nat i)[nat j := b ! nat idx ! nat j]])"
      using i lt j trow by (intro wr2_Some) simp_all
    have ws: "well_shaped n (t[nat i := (t ! nat i)[nat j := b ! nat idx ! nat j]])"
      using t trow by (intro well_shaped_update) simp_all
    have "t[nat i := (t ! nat i)[nat j := b ! nat idx ! nat j]] ! r ! col =
        (if col = nat j \<and> r = nat i then b ! nat idx ! col else t ! r ! col)"
      if "r < length t" "col < nat n" for r col
      using that trow by (cases "r = nat i") (auto simp: nth_list_update)
    with x w ws show ?thesis by simp
  qed
  from band_loop[where f = ?body and lo = 0 and hi = n and n = n and a = c and p = "nat i"
      and q = "nat i" and ?s1.0 = "\<lambda>col. b ! nat idx ! col" and ?s2.0 = "\<lambda>col. b ! nat idx ! col",
      OF c order_refl n order_refl]
  obtain c' where run: "for_loop 0 n ?body c = Some c'" and ws: "well_shaped n c'"
    and v: "\<forall>r < length c. \<forall>col < nat n. c' ! r ! col =
        (if nat 0 \<le> col \<and> col < nat n \<and> r = nat i then b ! nat idx ! col
         else if nat 0 \<le> col \<and> col < nat n \<and> r = nat i then b ! nat idx ! col else c ! r ! col)"
    using step by auto
  have lc': "length c' = nat POPULATION" using ws by (rule well_shaped_length)
  have "c' = c[nat i := b ! nat idx]"
  proof (rule nth_equalityI)
    show "length c' = length (c[nat i := b ! nat idx])" using lc lc' by simp
    fix r assume "r < length c'"
    then have r: "r < length c" using lc lc' by simp
    have l1: "int (length (c' ! r)) = n" using ws r lc lc' by (intro well_shaped_row) simp_all
    have l2: "int (length (c ! r)) = n" using c r by (intro well_shaped_row) simp_all
    show "c' ! r = c[nat i := b ! nat idx] ! r"
    proof (rule nth_equalityI)
      show "length (c' ! r) = length (c[nat i := b ! nat idx] ! r)"
        using l1 l2 brow r by (cases "r = nat i") simp_all
      fix col assume "col < length (c' ! r)"
      then have "col < nat n" using l1 by linarith
      then show "c' ! r ! col = c[nat i := b ! nat idx] ! r ! col"
        using v r by (cases "r = nat i") simp_all
    qed
  qed
  with run show ?thesis by (simp add: copy_row_def)
qed

lemma select_round_spec:
  assumes d: "int (length d) = POPULATION"
    and b: "well_shaped n b" and c: "well_shaped n c" and n: "0 \<le> n"
    and i: "0 \<le> i" "i < POPULATION"
  shows "\<exists>idx. select_round n b i (c, d, idx0) =
       Some (c[nat i := b ! nat idx], d[nat idx := 1000000], idx) \<and>
     0 \<le> idx \<and> idx < POPULATION \<and> (\<forall>x \<in> set d. d ! nat idx \<le> x) \<and>
     (\<forall>j < length d. nat idx < j \<longrightarrow> d ! j \<noteq> d ! nat idx)"
proof -
  from min_arr_spec[OF d] obtain m where
    m: "min_arr d = Some m" "m \<in> set d" "\<forall>x \<in> set d. m \<le> x" by blast
  from last_index_of_spec[OF d m(2), of idx0] obtain idx where
    l: "last_index_of d m idx0 = Some idx" and idx: "0 \<le> idx" "idx < POPULATION"
    and at: "d ! nat idx = m" and after: "\<forall>j < length d. nat idx < j \<longrightarrow> d ! j \<noteq> m" by blast
  have cr: "copy_row n b idx i c = Some (c[nat i := b ! nat idx])"
    using b c n idx i by (rule copy_row_spec)
  have w: "wr d idx 1000000 = Some (d[nat idx := 1000000])" using idx d by simp
  have "select_round n b i (c, d, idx0) = Some (c[nat i := b ! nat idx], d[nat idx := 1000000], idx)"
    by (simp add: select_round_def m(1) l cr w)
  then show ?thesis using idx at after m(3) by blast
qed


lemma ranking_selection_order:
  assumes a: "int (length a) = POPULATION" and small: "\<forall>x \<in> set a. x < 1000000"
    and b: "well_shaped n b" and c: "well_shaped n c" and n: "0 \<le> n"
  shows "\<exists>idxs. ranking_selection a n b c = Some (map (\<lambda>k. b ! k) idxs) \<and>
     length idxs = nat POPULATION \<and> distinct idxs \<and> set idxs = {0..<nat POPULATION} \<and>
     sorted_wrt (taken_before a) idxs"
proof -
  define N where "N = nat POPULATION"
  have la: "length a = N" using a by (simp add: N_def)
  have N: "int N = POPULATION" by (simp add: N_def POPULATION_def)
  let ?J = "\<lambda>k t. \<exists>idxs c' d' (idx' :: int). t = (c', d', idx') \<and> length idxs = nat k \<and>
      distinct idxs \<and> set idxs \<subseteq> {0..<N} \<and> well_shaped n c' \<and>
      (\<forall>p < nat k. c' ! p = b ! (idxs ! p)) \<and> length d' = N \<and>
      (\<forall>j < N. d' ! j = (if j \<in> set idxs then 1000000 else a ! j)) \<and>
      sorted_wrt (taken_before a) idxs \<and>
      (\<forall>x \<in> set idxs. \<forall>j < N. j \<notin> set idxs \<longrightarrow> taken_before a x j)"
  have "\<exists>t. for_loop 0 POPULATION (select_round n b) (c, a, - 1) = Some t \<and> ?J POPULATION t"
  proof (rule for_loop_inv[where I = ?J])
    show "?J 0 (c, a, - 1)" using c la
      by (intro exI[of _ "[]"] exI[of _ c] exI[of _ a] exI[of _ "- 1"]) simp
    show "0 \<le> POPULATION" by (simp add: POPULATION_def)
  next
    fix k t assume k: "0 \<le> k" "k < POPULATION" and J: "?J k t"
    then obtain c' d' idx' idxs where t: "t = (c', d', idx')"
      and li: "length idxs = nat k" and di: "distinct idxs" and si: "set idxs \<subseteq> {0..<N}"
      and wc: "well_shaped n c'" and cv: "\<forall>p < nat k. c' ! p = b ! (idxs ! p)"
      and ld: "length d' = N"
      and dv: "\<forall>j < N. d' ! j = (if j \<in> set idxs then 1000000 else a ! j)"
      and so: "sorted_wrt (taken_before a) idxs"
      and bef: "\<forall>x \<in> set idxs. \<forall>j < N. j \<notin> set idxs \<longrightarrow> taken_before a x j"
      by blast
    have ld': "int (length d') = POPULATION" using ld N by simp
    from select_round_spec[OF ld' b wc n k, of idx'] obtain idx where
      run: "select_round n b k (c', d', idx') =
         Some (c'[nat k := b ! nat idx], d'[nat idx := 1000000], idx)"
      and idx: "0 \<le> idx" "idx < POPULATION"
      and least: "\<forall>x \<in> set d'. d' ! nat idx \<le> x"
      and after: "\<forall>j < length d'. nat idx < j \<longrightarrow> d' ! j \<noteq> d' ! nat idx"
      by blast
    define I where "I = nat idx"
    have IN: "I < N" using idx N by (simp add: I_def)
    have leastn: "d' ! I \<le> d' ! j" if "j < N" for j
      using least that ld by (simp add: I_def)
    have "card (set idxs) < card {0..<N}"
      using li di k N by (simp add: distinct_card)
    then have "set idxs \<noteq> {0..<N}" by auto
    with si have "\<exists>j0. j0 < N \<and> j0 \<notin> set idxs" by (auto simp: set_eq_iff subset_iff)
    then obtain j0 where j0: "j0 < N" "j0 \<notin> set idxs" by blast
    have "a ! j0 < 1000000" using small j0 la by simp
    moreover have "d' ! I \<le> d' ! j0" using leastn j0 by simp
    ultimately have "d' ! I < 1000000" using dv j0 by simp
    then have Inew: "I \<notin> set idxs" using dv IN by auto
    then have dI: "d' ! I = a ! I" using dv IN by simp
    have first: "taken_before a I j" if j: "j < N" "j \<notin> set idxs" "j \<noteq> I" for j
    proof -
      have dj: "d' ! j = a ! j" using dv j by simp
      have le: "a ! I \<le> a ! j" using leastn[OF j(1)] dI dj by simp
      show ?thesis
      proof (cases "a ! I = a ! j")
        case True
        then have "\<not> I < j" using after j ld dI dj by (auto simp: I_def)
        then show ?thesis using True j by (simp add: taken_before_def)
      next
        case False
        then show ?thesis using le by (simp add: taken_before_def)
      qed
    qed
    let ?idxs = "idxs @ [I]"
    have k1: "nat (k + 1) = Suc (nat k)" using k by linarith
    have "?J (k + 1) (c'[nat k := b ! nat idx], d'[nat idx := 1000000], idx)"
    proof (rule exI[of _ ?idxs], intro exI conjI)
      show "(c'[nat k := b ! nat idx], d'[nat idx := 1000000], idx) =
          (c'[nat k := b ! nat idx], d'[nat idx := 1000000], idx)" ..
      show "length ?idxs = nat (k + 1)" using li k1 by simp
      show "distinct ?idxs" using di Inew by simp
      show "set ?idxs \<subseteq> {0..<N}" using si IN by simp
      show "well_shaped n (c'[nat k := b ! nat idx])"
      proof (rule well_shaped_update[OF wc])
        show "int (length (b ! nat idx)) = n"
          using b idx by (intro well_shaped_row) (simp_all add: well_shaped_length)
      qed
      show "\<forall>p < nat (k + 1). c'[nat k := b ! nat idx] ! p = b ! (?idxs ! p)"
      proof (intro allI impI)
        fix p assume "p < nat (k + 1)"
        then have "p < nat k \<or> p = nat k" using k1 by linarith
        moreover have "nat k < length c'" using wc k by (simp add: well_shaped_length)
        ultimately show "c'[nat k := b ! nat idx] ! p = b ! (?idxs ! p)"
          using cv li by (auto simp: nth_append I_def)
      qed
      show "length (d'[nat idx := 1000000]) = N" using ld by simp
      show "\<forall>j < N. d'[nat idx := 1000000] ! j = (if j \<in> set ?idxs then 1000000 else a ! j)"
      proof (intro allI impI)
        fix j assume j: "j < N"
        show "d'[nat idx := 1000000] ! j = (if j \<in> set ?idxs then 1000000 else a ! j)"
          using dv[rule_format, OF j] j ld
          by (cases "j = I") (simp_all add: I_def)
      qed
      show "sorted_wrt (taken_before a) ?idxs"
        using so bef IN Inew by (simp add: sorted_wrt_append)
      show "\<forall>x \<in> set ?idxs. \<forall>j < N. j \<notin> set ?idxs \<longrightarrow> taken_before a x j"
        using bef first by auto
    qed
    with run t show "\<exists>t'. select_round n b k t = Some t' \<and> ?J (k + 1) t'" by blast
  qed
  then obtain c' d' idx' idxs where
    run: "for_loop 0 POPULATION (select_round n b) (c, a, - 1) = Some (c', d', idx')"
    and li: "length idxs = N" and di: "distinct idxs" and si: "set idxs \<subseteq> {0..<N}"
    and wc: "well_shaped n c'" and cv: "\<forall>p < N. c' ! p = b ! (idxs ! p)"
    and so: "sorted_wrt (taken_before a) idxs"
    unfolding N_def by blast
  have "card (set idxs) = card {0..<N}" using li di by (simp add: distinct_card)
  with si have all: "set idxs = {0..<N}" by (intro card_subset_eq) simp_all
  have "c' = map (\<lambda>k. b ! k) idxs"
  proof (rule nth_equalityI)
    show "length c' = length (map (\<lambda>k. b ! k) idxs)"
      using wc li by (simp add: well_shaped_length N_def)
    fix p assume "p < length c'"
    then have "p < N" using wc by (simp add: well_shaped_length N_def)
    then show "c' ! p = map (\<lambda>k. b ! k) idxs ! p" using cv li by simp
  qed
  moreover have "ranking_selection a n b c = Some c'"
    by (simp add: ranking_selection_def copy_fitness[OF a] run)
  ultimately show ?thesis using li di all so unfolding N_def by blast
qed


text \<open>
  For fitness values below the marker \<open>1000000\<close> the output is a permutation of the
  input rows, in non-decreasing order of fitness.
\<close>

lemma ranking_selection_sorted_perm:
  assumes a: "int (length a) = POPULATION" and small: "\<forall>x \<in> set a. x < 1000000"
    and b: "well_shaped n b" and c: "well_shaped n c" and n: "0 \<le> n"
  shows "\<exists>idxs. ranking_selection a n b c = Some (map (\<lambda>k. b ! k) idxs) \<and>
     sorted (map (\<lambda>k. a ! k) idxs) \<and>
     mset (map (\<lambda>k. (b ! k, a ! k)) idxs) = mset (zip b a)"
proof -
  from ranking_selection_order[OF assms] obtain idxs where
    run: "ranking_selection a n b c = Some (map (\<lambda>k. b ! k) idxs)"
    and di: "distinct idxs" and all: "set idxs = {0..<nat POPULATION}"
    and so: "sorted_wrt (taken_before a) idxs" by blast
  have la: "length a = nat POPULATION" using a by linarith
  have lb: "length b = nat POPULATION" using b by (rule well_shaped_length)
  have "sorted_wrt (\<lambda>x y. a ! x \<le> a ! y) idxs"
    using so by (rule sorted_wrt_mono_rel[rotated]) (auto simp: taken_before_def)
  then have s: "sorted (map (\<lambda>k. a ! k) idxs)" by (simp add: sorted_map)
  have "mset idxs = mset [0..<nat POPULATION]"
    using di all by (intro set_eq_iff_mset_eq_distinct[THEN iffD1]) simp_all
  then have "mset (map (\<lambda>k. (b ! k, a ! k)) idxs) =
      mset (map (\<lambda>k. (b ! k, a ! k)) [0..<nat POPULATION])" by (metis mset_map)
  also have "map (\<lambda>k. (b ! k, a ! k)) [0..<nat POPULATION] = zip b a"
    using la lb by (intro nth_equalityI) simp_all
  finally show ?thesis using run s by blast
qed

section \<open>The encoder of the specification against the decoder\<close>

lemma rank_of_bounds: "x \<in> set rem \<Longrightarrow> 1 \<le> rank_of x rem \<and> rank_of x rem \<le> int (length rem)"
  by (induction rem) auto

lemma rank_of_nth: "x \<in> set rem \<Longrightarrow> rem ! nat (rank_of x rem - 1) = x"
proof (induction rem)
  case Nil
  then show ?case by simp
next
  case (Cons y ys)
  show ?case
  proof (cases "x = y")
    case True
    then show ?thesis by simp
  next
    case False
    with Cons.prems have x: "x \<in> set ys" by simp
    from rank_of_bounds[OF x] have "nat (rank_of x ys + 1 - 1) = Suc (nat (rank_of x ys - 1))"
      by linarith
    with False Cons.IH[OF x] show ?thesis by simp
  qed
qed

lemma rank_of_remove:
  "x \<in> set rem \<Longrightarrow>
   take (nat (rank_of x rem - 1)) rem @ drop (nat (rank_of x rem)) rem = remove1 x rem"
proof (induction rem)
  case Nil
  then show ?case by simp
next
  case (Cons y ys)
  show ?case
  proof (cases "x = y")
    case True
    then show ?thesis by simp
  next
    case False
    with Cons.prems have x: "x \<in> set ys" by simp
    from rank_of_bounds[OF x] have
      "nat (rank_of x ys + 1 - 1) = Suc (nat (rank_of x ys - 1))"
      "nat (rank_of x ys + 1) = Suc (nat (rank_of x ys))"
      by linarith+
    with False Cons.IH[OF x] show ?thesis by simp
  qed
qed

lemma select_labels_encode_from:
  "mset xs \<subseteq># mset rem \<Longrightarrow> select_labels (encode_from xs rem) rem = xs"
proof (induction xs arbitrary: rem)
  case Nil
  then show ?case by simp
next
  case (Cons x xs)
  have "x \<in># mset (x # xs)" by simp
  with Cons.prems(1) have "x \<in># mset rem" by (rule mset_subset_eqD)
  then have x: "x \<in> set rem" by simp
  have "mset xs \<subseteq># mset (remove1 x rem)"
    using Cons.prems x by (simp add: insert_subset_eq_iff)
  then have "select_labels (encode_from xs (remove1 x rem)) (remove1 x rem) = xs"
    by (rule Cons.IH)
  then show ?case using x by (simp add: rank_of_nth rank_of_remove)
qed

lemma length_encode_from: "length (encode_from xs rem) = length xs"
  by (induction xs arbitrary: rem) auto

lemma encode_from_in_range:
  "mset xs \<subseteq># mset rem \<Longrightarrow> int (length rem) = n - j \<Longrightarrow> genes_in_range n j (encode_from xs rem)"
proof (induction xs arbitrary: rem j)
  case Nil
  then show ?case by simp
next
  case (Cons x xs)
  have "x \<in># mset (x # xs)" by simp
  with Cons.prems(1) have "x \<in># mset rem" by (rule mset_subset_eqD)
  then have x: "x \<in> set rem" by simp
  have sub: "mset xs \<subseteq># mset (remove1 x rem)"
    using Cons.prems x by (simp add: insert_subset_eq_iff)
  have "int (length (remove1 x rem)) = n - (j + 1)"
  proof -
    have "0 < length rem" using x by (rule length_pos_if_in_set)
    then have "int (length rem - 1) = int (length rem) - 1" by linarith
    then show ?thesis using x Cons.prems(2) by (simp add: length_remove1)
  qed
  from Cons.IH[OF sub this] rank_of_bounds[OF x] Cons.prems(2)
  show ?case by simp
qed

lemma rank_of_upto: "i \<le> x \<Longrightarrow> x \<le> j \<Longrightarrow> rank_of x [i..j] = x - i + 1"
proof (induction "nat (x - i)" arbitrary: i)
  case 0
  then have "i = x" by simp
  then show ?case using 0 by (simp add: upto_rec1)
next
  case (Suc m)
  then have lt: "i < x" by simp
  have "rank_of x [i + 1..j] = x - (i + 1) + 1"
    using Suc.hyps(2) Suc.prems lt by (intro Suc.hyps(1)) simp_all
  then show ?case using lt Suc.prems by (simp add: upto_rec1)
qed


text \<open>
  In the checked model, decoding the encodings of twenty permutations of \<open>1..n\<close>, none
  of which starts with the label \<open>n\<close>, gives the permutations back.
\<close>

lemma decode_encode_round_trip_checked:
  assumes n: "1 \<le> n" and shape: "int (length Ps) = POPULATION" "well_shaped n route"
    and perm: "\<forall>P \<in> set Ps. mset P = mset [1..n] \<and> P ! 0 \<noteq> n"
  shows "order_representation n (map (encode n) Ps) route = Some Ps"
proof -
  have row: "chromosome_ok n (encode n P) \<and> encode n P ! 0 < n \<and>
      select_labels (encode n P) [1..n] = P" if P: "P \<in> set Ps" for P
  proof -
    from perm P have m: "mset P = mset [1..n]" and first: "P ! 0 \<noteq> n" by simp_all
    have sub: "mset P \<subseteq># mset [1..n]" using m by simp
    have "length P = length [1..n]" using m by (rule mset_eq_length)
    then have len: "int (length P) = n" using n by simp
    then obtain x xs where Pc: "P = x # xs" using n by (cases P) auto
    have "x \<in> set [1..n]" using m Pc by (metis list.set_intros(1) mset_eq_setD)
    then have "rank_of x [1..n] = x - 1 + 1" by (intro rank_of_upto) simp_all
    then have "encode n P ! 0 = x" by (simp add: encode_def Pc)
    moreover have "x < n" using \<open>x \<in> set [1..n]\<close> first Pc by simp
    moreover have "genes_in_range n 0 (encode n P)"
      unfolding encode_def using sub n by (intro encode_from_in_range) simp_all
    moreover have "select_labels (encode n P) [1..n] = P"
      unfolding encode_def using sub by (rule select_labels_encode_from)
    ultimately show ?thesis using len by (simp add: chromosome_ok_def encode_def length_encode_from)
  qed
  have "order_representation n (map (encode n) Ps) route =
      Some (map (\<lambda>c. select_labels c [1..n]) (map (encode n) Ps))"
  proof (rule order_representation_rows[OF n])
    show "int (length (map (encode n) Ps)) = POPULATION" using shape by simp
    show "int (length route) = POPULATION" using shape by (simp add: well_shaped_def)
    show "\<forall>r < length route. length (route ! r) = nat n"
      using shape(2) well_shaped_row by fastforce
    show "\<forall>r < length (map (encode n) Ps).
        chromosome_ok n (map (encode n) Ps ! r) \<and> map (encode n) Ps ! r ! 0 < n"
      using row by simp
  qed
  also have "map (\<lambda>c. select_labels c [1..n]) (map (encode n) Ps) = Ps"
    using row by (simp add: map_idI)
  finally show ?thesis .
qed

text \<open>
  The encoding of a permutation of \<open>1..n\<close> is in range and selects the permutation
  again; and encoding what an in-range chromosome selects gives the chromosome back.
\<close>

lemma encode_permutation:
  assumes n: "0 \<le> n" and m: "mset P = mset [1..n]"
  shows "chromosome_ok n (encode n P) \<and> select_labels (encode n P) [1..n] = P"
proof -
  have sub: "mset P \<subseteq># mset [1..n]" using m by simp
  have "length P = length [1..n]" using m by (rule mset_eq_length)
  then have len: "int (length P) = n" using n by simp
  have "genes_in_range n 0 (encode n P)"
    unfolding encode_def using sub n by (intro encode_from_in_range) simp_all
  moreover have "select_labels (encode n P) [1..n] = P"
    unfolding encode_def using sub by (rule select_labels_encode_from)
  ultimately show ?thesis using len by (simp add: chromosome_ok_def encode_def length_encode_from)
qed

lemma rank_of_nth_distinct:
  "distinct rem \<Longrightarrow> K < length rem \<Longrightarrow> rank_of (rem ! K) rem = int K + 1"
proof (induction rem arbitrary: K)
  case Nil
  then show ?case by simp
next
  case (Cons y ys)
  show ?case
  proof (cases K)
    case 0
    then show ?thesis by simp
  next
    case (Suc L)
    with Cons.prems have L: "L < length ys" and d: "distinct ys" and ny: "y \<notin> set ys" by simp_all
    then have "ys ! L \<noteq> y" by (metis nth_mem)
    with Suc Cons.IH[OF d L] show ?thesis by simp
  qed
qed

lemma encode_from_select_labels:
  "distinct rem \<Longrightarrow> int (length rem) = n - j \<Longrightarrow> genes_in_range n j ks \<Longrightarrow>
   encode_from (select_labels ks rem) rem = ks"
proof (induction ks arbitrary: rem j)
  case Nil
  then show ?case by simp
next
  case (Cons k ks)
  then have k: "1 \<le> k" "k \<le> int (length rem)" and rng: "genes_in_range n (j + 1) ks"
    by simp_all
  define K where "K = nat (k - 1)"
  have K: "K < length rem" "int K + 1 = k" "nat k = Suc K" using k by (simp_all add: K_def)
  have mem: "rem ! K \<in> set rem" using K(1) by simp
  have r: "rank_of (rem ! K) rem = k" using rank_of_nth_distinct[OF Cons.prems(1) K(1)] K by simp
  have rm: "remove1 (rem ! K) rem = take K rem @ drop (Suc K) rem"
    using rank_of_remove[OF mem] r K by (simp add: K_def)
  have "encode_from (select_labels ks (take K rem @ drop (Suc K) rem)) (take K rem @ drop (Suc K) rem) = ks"
  proof (rule Cons.IH[OF _ _ rng])
    show "distinct (take K rem @ drop (Suc K) rem)"
      using Cons.prems(1) rm by (metis distinct_remove1)
    show "int (length (take K rem @ drop (Suc K) rem)) = n - (j + 1)"
      using K Cons.prems(2) by simp
  qed
  then show ?case using r rm K by (simp add: K_def)
qed


text \<open>
  The other direction of the round trip, on the decoder that can read the cell behind
  its working list: the routes decoded from an in-range population encode to it.
\<close>

lemma encode_decode_round_trip:
  assumes n: "1 \<le> n" and a: "int (length a) = POPULATION" and route: "well_shaped n route"
    and ok: "list_all (chromosome_ok n) a"
  shows "\<exists>routes. order_representation_past v n a route = Some routes \<and> map (encode n) routes = a"
proof -
  have okn: "\<forall>r < length a. chromosome_ok n (a ! r)" using ok by (simp add: list_all_length)
  have run: "order_representation_past v n a route = Some (map (\<lambda>c. select_labels c [1..n]) a)"
  proof (rule order_representation_past_rows[OF n a _ _ okn])
    show "int (length route) = POPULATION" using route by (simp add: well_shaped_def)
    show "\<forall>r < length route. length (route ! r) = nat n"
      using route well_shaped_row by fastforce
  qed
  have "encode n (select_labels c [1..n]) = c" if "c \<in> set a" for c
  proof -
    from ok that have "genes_in_range n 0 c" by (simp add: list_all_iff chromosome_ok_def)
    then show ?thesis
      unfolding encode_def using n by (intro encode_from_select_labels[where n = n and j = 0]) simp_all
  qed
  then have "map (encode n) (map (\<lambda>c. select_labels c [1..n]) a) = a"
    by (simp add: map_idI)
  with run show ?thesis by blast
qed

section \<open>Claims about the codec\<close>

text \<open>
  Claim C2 (codec totality): for every instance size \<open>n \<ge> 1\<close> and every chromosome whose
  gene at each position \<open>j\<close> lies in \<open>[1, n - j]\<close>, decoding that chromosome
  (\<open>order_representation\<close> on one row, with \<open>copy_array\<close> removing the selected label from
  the working list) produces a route that is a permutation of the labels \<open>1..n\<close> with no
  duplicates. The only access outside an array that such a chromosome causes is the
  read \<open>a[i + 1]\<close> of \<open>copy_array\<close> at the rank \<open>n\<close> (claim C7); the value it delivers is
  stored in the last cell and replaced by 0 in the same call, after the label was
  stored in the route. So the claim is stated on the decoder that can read that cell,
  for every value \<open>v\<close> the read may deliver, and for every row of a population of
  in-range chromosomes.
\<close>

theorem C2_decode_is_permutation:
  assumes n: "1 \<le> n" and a: "int (length a) = POPULATION" and route: "well_shaped n route"
    and ok: "list_all (chromosome_ok n) a"
  shows "\<exists>route'. order_representation_past v n a route = Some route' \<and>
     length route' = length a \<and>
     (\<forall>r < length a. mset (route' ! r) = mset [1..n] \<and> distinct (route' ! r))"
proof -
  have okn: "\<forall>r < length a. chromosome_ok n (a ! r)" using ok by (simp add: list_all_length)
  have run: "order_representation_past v n a route = Some (map (\<lambda>c. select_labels c [1..n]) a)"
  proof (rule order_representation_past_rows[OF n a _ _ okn])
    show "int (length route) = POPULATION" using route by (simp add: well_shaped_def)
    show "\<forall>r < length route. length (route ! r) = nat n"
      using route well_shaped_row by fastforce
  qed
  have "mset (select_labels (a ! r) [1..n]) = mset [1..n] \<and> distinct (select_labels (a ! r) [1..n])"
    if r: "r < length a" for r
  proof -
    from okn r have c: "int (length (a ! r)) = n" "genes_in_range n 0 (a ! r)"
      by (simp_all add: chromosome_ok_def)
    have m: "mset (select_labels (a ! r) [1..n]) = mset [1..n]"
      using c n by (intro select_labels_mset[where n = n and j = 0]) auto
    moreover have "distinct [1..n]" by simp
    ultimately show ?thesis using mset_eq_imp_distinct_iff by blast
  qed
  with run show ?thesis by simp
qed

theorem C2_decode_is_permutation_witness:
  "(\<exists>route'. order_representation_past 777 2 (replicate 19 [1, 1] @ [[2, 1]]) (replicate 20 [0, 0]) =
       Some route' \<and>
     length route' = length (replicate 19 [1, 1] @ [[2, 1 :: int]]) \<and>
     (\<forall>r < length (replicate 19 [1, 1] @ [[2, 1 :: int]]).
        mset (route' ! r) = mset [1..2] \<and> distinct (route' ! r))) \<and>
   order_representation_past 777 2 (replicate 19 [1, 1] @ [[2, 1]]) (replicate 20 [0, 0]) =
     Some (replicate 19 [1, 2] @ [[2, 1]])"
proof -
  have n: "(1 :: int) \<le> 2" by simp
  have a: "int (length (replicate 19 [1, 1] @ [[2, 1 :: int]])) = POPULATION" by code_simp
  have route: "well_shaped 2 (replicate 20 [0, 0])" by code_simp
  have ok: "list_all (chromosome_ok 2) (replicate 19 [1, 1] @ [[2, 1]])" by code_simp
  have val: "order_representation_past 777 2 (replicate 19 [1, 1] @ [[2, 1]]) (replicate 20 [0, 0]) =
     Some (replicate 19 [1, 2] @ [[2, 1]])" by code_simp
  from C2_decode_is_permutation[OF n a route ok, of 777] val show ?thesis by blast
qed


text \<open>
  Claim C7 (decode index safety): for every chromosome in range, every array index used
  while decoding lies within \<open>[0, n)\<close> of the working list, so the out-of-range branch
  is unreachable. The code reaches it: for \<open>n = 3\<close> and the chromosome \<open>[3, 1, 1]\<close>, which
  is in range, the first gene is \<open>k = 3\<close>, \<open>route[i][0] = order_list[2]\<close> is in range, and
  then \<open>copy_array(order_list, 3, 3)\<close> finds \<open>i == j - 1\<close> at \<open>i = 2\<close> and reads
  \<open>a[i + 1] = a[3]\<close>, one cell past the working list.
\<close>

theorem C7_copy_array_reads_past_working_list:
  "chromosome_ok 3 [3, 1, 1] \<and> rd [1, 2, 3 :: int] (3 - 1) = Some 3 \<and> rd [1, 2, 3 :: int] (2 + 1) = None \<and>
   copy_array [1, 2, 3] 3 3 = None \<and>
   order_representation 3 (replicate 20 [3, 1, 1]) (replicate 20 [0, 0, 0]) = None"
  by code_simp


section \<open>Claims about ranking selection\<close>

text \<open>
  Claim C4 (selection correctness): for every population of \<open>POPULATION\<close> chromosomes and
  every parallel fitness vector, the output of \<open>ranking_selection\<close> has non-decreasing
  fitness by position and is a permutation of the input rows, never dropping or
  duplicating a row. The code marks an extracted entry by overwriting its fitness with
  \<open>1000000\<close>, so a row whose fitness is above that value is never taken and a marked row
  is taken again: with the fitness vector \<open>3000000, 2000000, 500000, ..., 500000\<close> the
  rows \<open>[3, 1, 1]\<close> and \<open>[2, 2, 1]\<close> at positions 0 and 1 are dropped and the row
  \<open>[2, 1, 1]\<close> at position 19 occurs three times in the output. Lemma
  \<open>ranking_selection_sorted_perm\<close> above is the claim for fitness values below \<open>1000000\<close>.
\<close>

theorem C4_fitness_above_marker_drops_rows:
  "int (length costly_fitness) = POPULATION \<and> well_shaped 3 costly_pop \<and>
   ranking_selection costly_fitness 3 costly_pop blank3 =
     Some ([2, 1, 1] # replicate 17 [1, 1, 1] @ [[2, 1, 1], [2, 1, 1]]) \<and>
   [3, 1, 1] \<in> set costly_pop \<and>
   [3, 1, 1] \<notin> set ([2, 1, 1] # replicate 17 [1, 1, 1] @ [[2, 1, 1], [2, 1, 1 :: int]]) \<and>
   count_list costly_pop [2, 1, 1] = 1 \<and>
   count_list ([2, 1, 1] # replicate 17 [1, 1, 1] @ [[2, 1, 1], [2, 1, 1 :: int]]) [2, 1, 1] = 3"
  by code_simp

text \<open>
  Claim C6 (stable tie-break): \<open>ranking_selection\<close> orders the population by ascending
  fitness with ties broken by original position order: of two individuals with equal
  fitness, the one at the smaller input index appears at the smaller output index.
  The code keeps the last position that holds the minimum: when all twenty individuals
  have fitness 5, the individual at input index 19 (the only row \<open>[2, 1]\<close>) comes out at
  output index 0, before the individual at input index 0, and the output differs from
  the stable reordering.
\<close>

theorem C6_tie_last_index_first_counterexample:
  "ranking_selection (replicate 20 5) 2 tied_pop blank2 = Some ([2, 1] # replicate 19 [1, 1]) \<and>
   tied_pop ! 19 = [2, 1] \<and> tied_pop ! 0 = [1, 1] \<and>
   stable_ranking (replicate 20 5) tied_pop = tied_pop \<and>
   ranking_selection (replicate 20 5) 2 tied_pop blank2 \<noteq>
     Some (stable_ranking (replicate 20 5) tied_pop)"
  by code_simp

text \<open>
  Claim C6 as amended: for fitness values below \<open>1000000\<close>, \<open>ranking_selection\<close> returns
  the rows of the population in an order \<open>idxs\<close> of all the input indices such that an
  earlier output position has a smaller fitness, or an equal fitness and the larger
  input index: ties are broken by reverse position order. The result is a function of
  the fitness vector and the population alone.
\<close>

theorem C6_ties_larger_index_first:
  assumes a: "int (length a) = POPULATION" and small: "\<forall>x \<in> set a. x < 1000000"
    and b: "well_shaped n b" and c: "well_shaped n c" and n: "0 \<le> n"
  shows "\<exists>idxs. ranking_selection a n b c = Some (map (\<lambda>k. b ! k) idxs) \<and>
     length idxs = nat POPULATION \<and> set idxs = {0..<nat POPULATION} \<and>
     (\<forall>p q. p < q \<and> q < nat POPULATION \<longrightarrow>
        a ! (idxs ! p) < a ! (idxs ! q) \<or>
        a ! (idxs ! p) = a ! (idxs ! q) \<and> idxs ! q < idxs ! p)"
proof -
  from ranking_selection_order[OF assms] obtain idxs where
    run: "ranking_selection a n b c = Some (map (\<lambda>k. b ! k) idxs)"
    and li: "length idxs = nat POPULATION" and all: "set idxs = {0..<nat POPULATION}"
    and so: "sorted_wrt (taken_before a) idxs" by blast
  have "taken_before a (idxs ! p) (idxs ! q)" if "p < q" "q < nat POPULATION" for p q
    using so that li by (simp add: sorted_wrt_iff_nth_less)
  then have "\<forall>p q. p < q \<and> q < nat POPULATION \<longrightarrow>
        a ! (idxs ! p) < a ! (idxs ! q) \<or>
        a ! (idxs ! p) = a ! (idxs ! q) \<and> idxs ! q < idxs ! p"
    by (simp add: taken_before_def)
  with run li all show ?thesis by blast
qed

theorem C6_ties_larger_index_first_witness:
  "\<exists>idxs. ranking_selection (replicate 20 5) 2 tied_pop blank2 =
       Some (map (\<lambda>k. tied_pop ! k) idxs) \<and>
     length idxs = nat POPULATION \<and> set idxs = {0..<nat POPULATION} \<and>
     (\<forall>p q. p < q \<and> q < nat POPULATION \<longrightarrow>
        replicate 20 5 ! (idxs ! p) < replicate 20 (5 :: int) ! (idxs ! q) \<or>
        replicate 20 5 ! (idxs ! p) = replicate 20 (5 :: int) ! (idxs ! q) \<and> idxs ! q < idxs ! p)"
proof -
  have a: "int (length (replicate 20 (5 :: int))) = POPULATION" by code_simp
  have small: "\<forall>x \<in> set (replicate 20 (5 :: int)). x < 1000000" by code_simp
  have b: "well_shaped 2 tied_pop" by code_simp
  have c: "well_shaped 2 blank2" by code_simp
  have n: "(0 :: int) \<le> 2" by simp
  show ?thesis by (rule C6_ties_larger_index_first[OF a small b c n])
qed


section \<open>Claims about crossover\<close>

text \<open>
  Claim C5 (crossover band symmetry): for every chromosome length \<open>n\<close> and every adjacent
  parent pair \<open>(i, i+1)\<close> with even \<open>i\<close>, with cut point \<open>p = ceil(n/2) - 1\<close> for odd \<open>n\<close>
  and \<open>n/2 - 1\<close> for even \<open>n\<close>, \<open>tow_point_crossover\<close> produces two children such that on
  the outer bands \<open>[0, p/2]\<close> and \<open>(p + p/2, n)\<close> each child's genes equal its own
  parent's genes at the same positions, and on the middle band \<open>(p/2, p + p/2]\<close> the two
  parents' genes are exchanged between the two children. The children are the rows of
  the array \<open>a\<close> after the call, the parents the rows of \<open>b\<close>; both are
  \<open>POPULATION\<close> rows of \<open>n \<ge> 1\<close> genes.
\<close>

theorem C5_crossover_bands:
  assumes n: "1 \<le> n" and a: "well_shaped n a" and b: "well_shaped n b"
  shows "crossover_point n = (if even n then n div 2 - 1 else (n + 1) div 2 - 1) \<and>
     (\<exists>a'. tow_point_crossover n a b = Some a' \<and> well_shaped n a' \<and>
       (\<forall>i j. int i < POPULATION \<and> even i \<and> j < nat n \<longrightarrow>
          (if middle_band n (int j)
           then a' ! i ! j = b ! Suc i ! j \<and> a' ! Suc i ! j = b ! i ! j
           else a' ! i ! j = b ! i ! j \<and> a' ! Suc i ! j = b ! Suc i ! j)))"
proof -
  have cut: "crossover_point n = (if even n then n div 2 - 1 else (n + 1) div 2 - 1)"
    using n by (simp add: crossover_point_def even_iff_mod_2_eq_zero)
  have la: "length a = 20" using a by (simp add: well_shaped_length POPULATION_def)
  define child where "child r c =
     (if even r then (if middle_band n (int c) then b ! Suc r ! c else b ! r ! c)
      else (if middle_band n (int c) then b ! (r - 1) ! c else b ! r ! c))" for r c
  let ?I = "\<lambda>k t. well_shaped n t \<and> even k \<and> 0 \<le> k \<and>
     (\<forall>r < length a. \<forall>c < nat n. t ! r ! c = (if r < nat k then child r c else a ! r ! c))"
  have "\<exists>t k. for_loop2 0 POPULATION (cross_pair n b) a = Some t \<and> ?I k t \<and> POPULATION \<le> k \<and>
     (k = 0 \<or> k \<le> POPULATION + 1)"
  proof (rule for_loop2_inv[where I = ?I])
    show "?I 0 a" using a by simp
  next
    fix k t assume k: "0 \<le> k" "k < POPULATION" and I: "?I k t"
    then have wt: "well_shaped n t" and ev: "even k" by simp_all
    have k1: "k + 1 < POPULATION" using k ev by (auto simp: POPULATION_def elim!: evenE)
    have lt: "length t = length a" using wt a by (simp add: well_shaped_length)
    from cross_pair_spec[OF wt b n k(1) k1] obtain t' where
      run: "cross_pair n b k t = Some t'" and wt': "well_shaped n t'"
      and v: "\<forall>r < length t. \<forall>c < nat n. t' ! r ! c =
        (if r = nat k then (if middle_band n (int c) then b ! nat (k + 1) ! c else b ! nat k ! c)
         else if r = nat (k + 1) then (if middle_band n (int c) then b ! nat k ! c else b ! nat (k + 1) ! c)
         else t ! r ! c)"
      by blast
    have "t' ! r ! c = (if r < nat (k + 2) then child r c else a ! r ! c)"
      if rc: "r < length a" "c < nat n" for r c
    proof -
      have s: "nat (k + 1) = Suc (nat k)" "nat (k + 2) = Suc (Suc (nat k))" using k by linarith+
      have evn: "even (nat k)" using ev k by (simp add: even_nat_iff)
      have old: "t ! r ! c = (if r < nat k then child r c else a ! r ! c)" using I rc by simp
      have new: "t' ! r ! c =
        (if r = nat k then (if middle_band n (int c) then b ! Suc (nat k) ! c else b ! nat k ! c)
         else if r = Suc (nat k) then (if middle_band n (int c) then b ! nat k ! c else b ! Suc (nat k) ! c)
         else t ! r ! c)"
        using v rc lt s by simp
      consider "r < nat k" | "r = nat k" | "r = Suc (nat k)" | "Suc (Suc (nat k)) \<le> r" by linarith
      then show ?thesis
      proof cases
        case 1 then show ?thesis using new old s by simp
      next
        case 2 then show ?thesis using new s evn by (simp add: child_def)
      next
        case 3 then show ?thesis using new s evn by (simp add: child_def)
      next
        case 4 then show ?thesis using new old s by simp
      qed
    qed
    moreover have "even (k + 2)" "0 \<le> k + 2" using ev k by simp_all
    ultimately show "\<exists>t'. cross_pair n b k t = Some t' \<and> ?I (k + 2) t'"
      using run wt' by blast
  qed
  then obtain t k where run: "for_loop2 0 POPULATION (cross_pair n b) a = Some t"
    and wt: "well_shaped n t" and ev: "even k"
    and v: "\<forall>r < length a. \<forall>c < nat n. t ! r ! c = (if r < nat k then child r c else a ! r ! c)"
    and kk: "POPULATION \<le> k" by blast
  have "if middle_band n (int j)
           then t ! i ! j = b ! Suc i ! j \<and> t ! Suc i ! j = b ! i ! j
           else t ! i ! j = b ! i ! j \<and> t ! Suc i ! j = b ! Suc i ! j"
    if ij0: "int i < POPULATION" "even i" "j < nat n" for i j
  proof -
    have ij: "i < 20" "even i" "j < nat n" using ij0 by (simp_all add: POPULATION_def)
    have "Suc i \<noteq> 20" using ij(2) by auto
    then have i1: "Suc i < 20" using ij(1) by linarith
    have small: "i < nat k" "Suc i < nat k" using kk ij(1) i1 by (simp_all add: POPULATION_def)
    have "t ! i ! j = child i j" "t ! Suc i ! j = child (Suc i) j"
      using v ij i1 small la by simp_all
    then show ?thesis using ij(2) by (simp add: child_def)
  qed
  with run wt cut show ?thesis by (auto simp: tow_point_crossover_def)
qed

theorem C5_crossover_bands_witness:
  "(1::int) \<le> 4 \<and> well_shaped 4 blank4 \<and> well_shaped 4 parents4 \<and>
   crossover_point 4 = 1 \<and> \<not> middle_band 4 (int 0) \<and> middle_band 4 (int 1) \<and>
   (\<exists>a'. tow_point_crossover 4 blank4 parents4 = Some a' \<and>
      a' ! 0 ! 0 = parents4 ! 0 ! 0 \<and> a' ! Suc 0 ! 0 = parents4 ! Suc 0 ! 0 \<and>
      a' ! 0 ! 1 = parents4 ! Suc 0 ! 1 \<and> a' ! Suc 0 ! 1 = parents4 ! 0 ! 1)"
proof -
  have n: "(1::int) \<le> 4" by simp
  have a: "well_shaped 4 blank4" by code_simp
  have b: "well_shaped 4 parents4" by code_simp
  have p: "crossover_point 4 = 1" by code_simp
  have m0: "\<not> middle_band 4 (int 0)" by code_simp
  have m1: "middle_band 4 (int 1)" by code_simp
  from C5_crossover_bands[OF n a b] obtain a' where
    run: "tow_point_crossover 4 blank4 parents4 = Some a'"
    and v: "\<forall>i j. int i < POPULATION \<and> even i \<and> j < nat 4 \<longrightarrow>
          (if middle_band 4 (int j)
           then a' ! i ! j = parents4 ! Suc i ! j \<and> a' ! Suc i ! j = parents4 ! i ! j
           else a' ! i ! j = parents4 ! i ! j \<and> a' ! Suc i ! j = parents4 ! Suc i ! j)"
    by blast
  have "a' ! 0 ! 0 = parents4 ! 0 ! 0 \<and> a' ! Suc 0 ! 0 = parents4 ! Suc 0 ! 0"
    using v[rule_format, of 0 0] m0 by (simp add: POPULATION_def)
  moreover have "a' ! 0 ! 1 = parents4 ! Suc 0 ! 1 \<and> a' ! Suc 0 ! 1 = parents4 ! 0 ! 1"
    using v[rule_format, of 0 1] m1 by (simp add: POPULATION_def)
  ultimately show ?thesis using n a b p m0 m1 run by blast
qed


section \<open>Claims about mutation\<close>

text \<open>
  Claim C10 (implicit): in the tail regime of \<open>mutation\<close> (chosen individual
  \<open>r \<le> POPULATION/2\<close>) the marker assignment \<open>a[r][point+10] = 2\<close>, with
  \<open>point = ceil(n/2)\<close>, lies outside the index range \<open>[0, n)\<close> of the chromosome for
  every \<open>n\<close> with \<open>ceil(n/2) + 10 \<ge> n\<close>, so the out-of-range branch is reached there;
  and the loop over \<open>[point, n - 10)\<close> that precedes it writes nothing (this holds for
  all these \<open>n\<close>, in particular for \<open>n \<le> 10\<close>), so the marker write is the only write
  attempted.
\<close>

theorem C10_tail_marker_out_of_range:
  assumes n: "0 \<le> n" and far: "n \<le> mutation_point n + 10"
    and rv: "0 \<le> rv" and r: "r = c_mod rv (POPULATION - 1) + 1"
    and tail: "r \<le> c_div POPULATION 2"
    and shape: "well_shaped n a"
  shows "mutation_point n = (n + 1) div 2 \<and>
     set_ones r (mutation_point n) (n - 10) a = Some a \<and>
     wr2 a r (mutation_point n + 10) 2 = None \<and>
     mutation n a rv = None"
proof -
  have r1: "1 \<le> r" "r \<le> 10" using rv r tail by (simp_all add: POPULATION_def)
  then have rl: "0 \<le> r" "r < int (length a)"
    using shape by (simp_all add: well_shaped_def POPULATION_def)
  then have "a ! nat r \<in> set a" by simp
  then have row: "int (length (a ! nat r)) = n"
    using shape by (simp add: well_shaped_def list_all_iff)
  have loop: "set_ones r (mutation_point n) (n - 10) a = Some a"
    using far by (simp add: set_ones_def for_loop_done)
  have mark: "wr2 a r (mutation_point n + 10) 2 = None"
    using rl row far by (simp add: wr2_def)
  have "mutation n a rv = None"
    using r1 r loop mark by (simp add: mutation_def Let_def POPULATION_def)
  with loop mark n show ?thesis by (simp add: mutation_point_ceil)
qed



theorem C10_tail_marker_out_of_range_witness:
  "mutation_point 10 = (10 + 1) div 2 \<and>
   set_ones 5 (mutation_point 10) (10 - 10) (replicate 20 (replicate 10 1)) =
     Some (replicate 20 (replicate 10 1)) \<and>
   wr2 (replicate 20 (replicate 10 1)) 5 (mutation_point 10 + 10) 2 = None \<and>
   mutation 10 (replicate 20 (replicate 10 1)) 4 = None"
proof -
  have n: "(0::int) \<le> 10" by simp
  have far: "10 \<le> mutation_point 10 + 10" by code_simp
  have rv: "(0::int) \<le> 4" by simp
  have r: "5 = c_mod 4 (POPULATION - 1) + 1" by code_simp
  have tail: "5 \<le> c_div POPULATION 2" by code_simp
  have shape: "well_shaped 10 (replicate 20 (replicate 10 1))" by code_simp
  show ?thesis by (rule C10_tail_marker_out_of_range[OF n far rv r tail shape])
qed

section \<open>Claims about the search loop\<close>

text \<open>
  The loop ends at the first poll at which the clock has reached the limit: if some
  poll \<open>k + m\<close> sees the limit reached, the loop started at poll \<open>k\<close> returns (with a
  state, or with an out-of-range access in one of the passes).
\<close>

lemma generations_terminates:
  "\<not> clock (k + m) - start < real_of_int timelim \<Longrightarrow>
   generations clock rnd timelim t start k s \<noteq> None"
proof (induction m arbitrary: k s)
  case 0
  then show ?case by (subst generations.simps) simp
next
  case (Suc m)
  have "generations clock rnd timelim t start (Suc k) s' \<noteq> None" for s'
    using Suc.prems by (intro Suc.IH) simp
  then show ?case
    by (subst generations.simps) (simp split: option.splits)
qed

text \<open>
  Claim C1 (monotonic elitism): across a run of \<open>genetic_algorithm\<close> the best-solution
  record is updated only when a strictly better feasible route is found, so its cost
  never increases, and the route finally emitted is the best feasible route seen in any
  generation. The code writes \<open>vdata->bestsol\<close> twice: the identity tour before the loop,
  and after the loop the route of \<open>gene_tmp[0]\<close>, the row ranked first in the last pass;
  no cost is ever compared with the record. In the run below (four nodes, two passes,
  no mutation) the record starts as the identity tour of cost 14, the first pass
  evaluates that tour (fitness 14 at position 0), crossover then replaces it, and the
  route emitted at the end costs 16.
\<close>

theorem C1_emitted_route_worse_than_first_generation:
  "map_option st_bestsol (ga_init rnd_run tsp4 (start_state 4 [0, 0, 0, 0])) = Some [0, 1, 2, 3] \<and>
   compute_cost tsp4 [0, 1, 2, 3] = Some 14 \<and> is_feasible tsp4 [0, 1, 2, 3] = Some 1 \<and>
   map_option st_fitness
     (Option.bind (ga_init rnd_run tsp4 (start_state 4 [0, 0, 0, 0])) (generation rnd_run tsp4)) =
     Some (14 # replicate 19 16) \<and>
   genetic_algorithm clock_half rnd_run 1 tsp4 0 (start_state 4 [0, 0, 0, 0]) =
     Some (Some [0, 2, 3, 1]) \<and>
   compute_cost tsp4 [0, 2, 3, 1] = Some 16"
  by code_simp

text \<open>
  Claim C3 (generation-wide range invariant): after one full generation the population
  still has \<open>POPULATION\<close> chromosomes and every gene is within \<open>1 \<le> gene[j] \<le> n - j\<close>; in
  particular the constants 1 and 2 that \<open>mutation\<close> writes never leave a gene outside
  its range. The code writes the marker 2 without looking at the range: for \<open>n = 22\<close>
  and a population of identity chromosomes, a pass in which the mutation trigger fires
  (\<open>r1 = r2 = 4\<close>) and \<open>r = 5\<close> is drawn runs the tail regime, \<open>point = 11\<close>, and stores
  \<open>a[5][21] = 2\<close>, where only the value 1 is in range. For \<open>n = 10\<close>, the size of the
  specification's example, the same pass stores the marker at \<open>a[5][15]\<close>, outside the
  chromosome, and the pass does not return a population.
\<close>

theorem C3_mutation_marker_out_of_gene_range:
  "well_shaped 22 (st_gene state22) \<and> list_all (chromosome_ok 22) (st_gene state22) \<and>
   map_option st_gene (generation (\<lambda>k. 4) tsp22 state22) =
     Some ((replicate 20 ones22)[5 := replicate 21 1 @ [2]]) \<and>
   \<not> chromosome_ok 22 (replicate 21 1 @ [2]) \<and>
   \<not> list_all (chromosome_ok 22) ((replicate 20 ones22)[5 := replicate 21 1 @ [2]]) \<and>
   well_shaped 10 (st_gene state10) \<and> list_all (chromosome_ok 10) (st_gene state10) \<and>
   generation (\<lambda>k. 4) tsp10 state10 = None"
  by code_simp

text \<open>
  Claim C8 (time-bounded termination with a feasible result): for every time limit
  \<open>\<ge> 0\<close> the loop ends and a feasible route is produced, the initial identity chromosome
  serving as a candidate if nothing better is found. With the time limit 0 the loop
  body never runs, so \<open>gene_tmp\<close> is never written; the code still decodes \<open>gene_tmp[0]\<close>
  and overwrites the identity tour in \<open>vdata->bestsol\<close> with the result. When the
  uninitialised array holds zeros the decoder reads \<open>order_list[-1]\<close>; when it holds the
  row \<open>[1, 1, 1, 2]\<close> the emitted tour is \<open>[0, 1, 2, -1]\<close>, which \<open>is_feasible\<close> rejects,
  while the identity tour that was overwritten is feasible.
\<close>

theorem C8_zero_time_limit_decodes_uninitialised_rows:
  "genetic_algorithm clock_half rnd_run 0 tsp4 0 (start_state 4 [0, 0, 0, 0]) = Some None \<and>
   genetic_algorithm clock_half rnd_run 0 tsp4 0 (start_state 4 [1, 1, 1, 2]) =
     Some (Some [0, 1, 2, - 1]) \<and>
   is_feasible tsp4 [0, 1, 2, - 1] = Some 0 \<and> is_feasible tsp4 [0, 1, 2, 3] = Some 1"
  by code_simp

text \<open>
  Claim C9 (codec round-trip): for every permutation \<open>P\<close> of \<open>1..n\<close>,
  \<open>decode(encode(P)) = P\<close>, where \<open>encode\<close> gives each position the current rank of
  \<open>route[j]\<close> among the remaining labels and then removes that label. The encoder is the
  one the specification describes; the decoder is the source's, on the machine that can
  read the cell behind the working list (the read of claim C7, whose value is replaced
  by 0 in the same call), for every value \<open>v\<close> that read may deliver: a population of the
  encodings of twenty permutations of \<open>1..n\<close> decodes to these permutations. Lemma
  \<open>encode_decode_round_trip\<close> above is the other direction.
\<close>

theorem C9_decode_encode_round_trip:
  assumes n: "1 \<le> n" and Ps: "int (length Ps) = POPULATION" and route: "well_shaped n route"
    and perm: "list_all (\<lambda>P. mset P = mset [1..n]) Ps"
  shows "order_representation_past v n (map (encode n) Ps) route = Some Ps"
proof -
  have row: "chromosome_ok n (encode n P) \<and> select_labels (encode n P) [1..n] = P"
    if "P \<in> set Ps" for P
    using perm that n by (intro encode_permutation) (simp_all add: list_all_iff)
  have "order_representation_past v n (map (encode n) Ps) route =
      Some (map (\<lambda>c. select_labels c [1..n]) (map (encode n) Ps))"
  proof (rule order_representation_past_rows[OF n])
    show "int (length (map (encode n) Ps)) = POPULATION" using Ps by simp
    show "int (length route) = POPULATION" using route by (simp add: well_shaped_def)
    show "\<forall>r < length route. length (route ! r) = nat n"
      using route well_shaped_row by fastforce
    show "\<forall>r < length (map (encode n) Ps). chromosome_ok n (map (encode n) Ps ! r)"
      using row by simp
  qed
  also have "map (\<lambda>c. select_labels c [1..n]) (map (encode n) Ps) = Ps"
    using row by (simp add: map_idI)
  finally show ?thesis .
qed

theorem C9_decode_encode_round_trip_witness:
  "order_representation_past 777 4 (map (encode 4) (replicate 20 [4, 2, 1, 3])) blank4 =
     Some (replicate 20 [4, 2, 1, 3]) \<and>
   encode 4 [4, 2, 1, 3] = [4, 2, 1, 1]"
proof -
  have n: "(1 :: int) \<le> 4" by simp
  have Ps: "int (length (replicate 20 [4, 2, 1, 3 :: int])) = POPULATION" by code_simp
  have route: "well_shaped 4 blank4" by code_simp
  have "mset [4, 2, 1, 3] = mset [1..(4 :: int)]" by (simp add: upto_rec1)
  then have perm: "list_all (\<lambda>P. mset P = mset [1..4]) (replicate 20 [4, 2, 1, 3])"
    by (simp add: list_all_iff)
  have e: "encode 4 [4, 2, 1, 3] = [4, 2, 1, 1]" by code_simp
  from C9_decode_encode_round_trip[OF n Ps route perm, of 777] e show ?thesis by blast
qed


end
